theory Spec2Isabelle
  imports Complex_Main "HOL-Library.Word"
begin

unbundle bit_operations_syntax

section \<open>The scene graph of KlayGE: data model\<close>

text \<open>
  The embedding follows \<^verbatim>\<open>KlayGE/Core/Src/Scene/SceneNode.cpp\<close> and
  \<^verbatim>\<open>KlayGE/Core/Include/KlayGE/SceneNode.hpp\<close>. Scene nodes are shared objects that
  refer to each other through pointers (\<^verbatim>\<open>parent_\<close>, \<^verbatim>\<open>children_\<close>), so the model keeps
  an explicit store: a node pointer is an address, the store maps addresses to node
  records. A \<^verbatim>\<open>RenderablePtr\<close> may be null (the source tests for it), so it is an
  optional address into a second store of drawables.
\<close>

type_synonym addr = nat
type_synonym rptr = "nat option"

text \<open>
  Reading \<^verbatim>\<open>v[i]\<close> past the end of a \<^verbatim>\<open>std::vector\<close> and dereferencing a null
  pointer are undefined behaviour in the source; the model makes both an error value.
\<close>

datatype error = IndexOutOfRange | NullPointer

datatype BoundOverlap = BO_No | BO_Partial | BO_Yes

text \<open>
  Modelled from the spec: \<^verbatim>\<open>AABBox\<close> and its union operator \<^verbatim>\<open>|=\<close> belong to
  \<^verbatim>\<open>KFL/Math.hpp\<close>, which is not among the sources. A box is its minimum and maximum
  corner; the union is the smallest box that contains both (componentwise minimum and
  maximum, which involve no rounding).
\<close>

type_synonym float3 = "real \<times> real \<times> real"

record AABBox =
  box_min :: float3
  box_max :: float3

definition minimize :: "float3 \<Rightarrow> float3 \<Rightarrow> float3" where
  "minimize a b =
     (case a of (ax, ay, az) \<Rightarrow> case b of (bx, by, bz) \<Rightarrow> (min ax bx, min ay by, min az bz))"

definition maximize :: "float3 \<Rightarrow> float3 \<Rightarrow> float3" where
  "maximize a b =
     (case a of (ax, ay, az) \<Rightarrow> case b of (bx, by, bz) \<Rightarrow> (max ax bx, max ay by, max az bz))"

definition aabb_union :: "AABBox \<Rightarrow> AABBox \<Rightarrow> AABBox" where
  "aabb_union a b =
     \<lparr> box_min = minimize (box_min a) (box_min b), box_max = maximize (box_max a) (box_max b) \<rparr>"

definition cube :: "real \<Rightarrow> real \<Rightarrow> AABBox" where
  "cube lo hi = \<lparr> box_min = (lo, lo, lo), box_max = (hi, hi, hi) \<rparr>"

text \<open>
  The matrix type \<^verbatim>\<open>float4x4\<close>, its product, its identity, \<^verbatim>\<open>MathLib::transform_aabb\<close>
  and the value of a default-constructed \<^verbatim>\<open>AABBox\<close> are declared outside the sources
  as well. They are parameters of the model: every operation that needs them takes a
  record of them, and the theorems hold for whatever they compute.
\<close>

record 'm MathLib =
  mat_mul :: "'m \<Rightarrow> 'm \<Rightarrow> 'm"
  mat_identity :: 'm
  transform_aabb :: "AABBox \<Rightarrow> 'm \<Rightarrow> AABBox"
  aabb_default :: AABBox

text \<open>
  Modelled from the spec: the drawable capability (\<^verbatim>\<open>Renderable.hpp\<close> is not among the
  sources). A drawable exposes a local-space bound, a hardware-readiness report, its
  sub-drawables, the per-pass boolean flags, and a world matrix, a select mode, an
  object id and a pass type (the number of the enumerator) that the node sets.
\<close>

record 'm Renderable =
  PosBound :: AABBox
  HWResourceReady :: bool
  Subrenderables :: "rptr list"
  r_ModelMatrix :: 'm
  r_SelectMode :: bool
  r_ObjectID :: "32 word"
  r_Pass :: nat
  r_TransparencyBackFace :: bool
  r_TransparencyFrontFace :: bool
  r_SSS :: bool
  r_Reflection :: bool
  r_SimpleForward :: bool
  r_VDM :: bool

text \<open>The fields of \<^verbatim>\<open>class SceneNode\<close>, in the order of the header.\<close>

record 'm SceneNode =
  name :: string
  attrib :: "32 word"
  parent :: "addr option"
  children :: "addr list"
  renderables :: "rptr list"
  renderables_hw_res_ready :: "bool list"
  model :: 'm
  abs_model :: 'm
  pos_aabb_os :: "AABBox option"
  pos_aabb_ws :: "AABBox option"
  pos_aabb_dirty :: bool
  visible_mark :: BoundOverlap
  sub_thread_update_func :: "nat option"
  main_thread_update_func :: "nat option"

text \<open>
  The store: the nodes, the drawables, the address the next \<^verbatim>\<open>MakeSharedPtr<SceneNode>\<close>
  returns, and the scene manager's registry of nodes (\<^verbatim>\<open>AddSceneNodeLocked\<close> appends to
  it; the scene manager's source is not among the files).
\<close>

record 'm Scene =
  nodes :: "addr \<Rightarrow> 'm SceneNode"
  rends :: "nat \<Rightarrow> 'm Renderable"
  next_node :: addr
  scene_nodes :: "addr list"

text \<open>
  A \<^verbatim>\<open>std::function\<close> bound to a node is a handle into a table of callbacks, which is a
  parameter of the operations that invoke one.
\<close>

type_synonym 'm callbacks = "nat \<Rightarrow> 'm Scene \<Rightarrow> addr \<Rightarrow> real \<Rightarrow> real \<Rightarrow> 'm Scene"

definition upd_node :: "'m Scene \<Rightarrow> addr \<Rightarrow> ('m SceneNode \<Rightarrow> 'm SceneNode) \<Rightarrow> 'm Scene" where
  "upd_node s p f = s\<lparr> nodes := (nodes s)(p := f (nodes s p)) \<rparr>"

subsection \<open>Attributes\<close>

definition SOA_Cullable :: "32 word" where "SOA_Cullable = push_bit 0 1"
definition SOA_Overlay :: "32 word" where "SOA_Overlay = push_bit 1 1"
definition SOA_Moveable :: "32 word" where "SOA_Moveable = push_bit 2 1"
definition SOA_Invisible :: "32 word" where "SOA_Invisible = push_bit 3 1"
definition SOA_NotCastShadow :: "32 word" where "SOA_NotCastShadow = push_bit 4 1"
definition SOA_SSS :: "32 word" where "SOA_SSS = push_bit 5 1"

text \<open>The test of the constructor: not an overlay, and cullable or moveable.\<close>

definition tracks_bound :: "32 word \<Rightarrow> bool" where
  "tracks_bound a \<longleftrightarrow> a AND SOA_Overlay = 0 \<and> a AND (SOA_Cullable OR SOA_Moveable) \<noteq> 0"

section \<open>Operations of a node\<close>

subsection \<open>Construction\<close>

text \<open>\<^verbatim>\<open>SceneNode::SceneNode(uint32_t attrib)\<close>.\<close>

definition SceneNode_init :: "'m MathLib \<Rightarrow> 32 word \<Rightarrow> 'm SceneNode" where
  "SceneNode_init M a =
     \<lparr> name = [], attrib = a, parent = None, children = [], renderables = [],
       renderables_hw_res_ready = [],
       model = mat_identity M, abs_model = mat_identity M,
       pos_aabb_os = (if tracks_bound a then Some (aabb_default M) else None),
       pos_aabb_ws = (if tracks_bound a then Some (aabb_default M) else None),
       pos_aabb_dirty = True, visible_mark = BO_No,
       sub_thread_update_func = None, main_thread_update_func = None \<rparr>"

text \<open>\<^verbatim>\<open>SceneNode::SceneNode(std::wstring_view name, uint32_t attrib)\<close>.\<close>

definition SceneNode_named :: "'m MathLib \<Rightarrow> string \<Rightarrow> 32 word \<Rightarrow> 'm SceneNode" where
  "SceneNode_named M nm a = (SceneNode_init M a)\<lparr> name := nm \<rparr>"

text \<open>Allocation of a node object: \<^verbatim>\<open>MakeSharedPtr<SceneNode>(attrib)\<close>.\<close>

definition alloc_node :: "'m Scene \<Rightarrow> 'm SceneNode \<Rightarrow> 'm Scene \<times> addr" where
  "alloc_node s n =
     (s\<lparr> nodes := (nodes s)(next_node s := n), next_node := Suc (next_node s) \<rparr>, next_node s)"

subsection \<open>Name, parent and children\<close>

definition Name_set :: "'m Scene \<Rightarrow> addr \<Rightarrow> string \<Rightarrow> 'm Scene" where
  "Name_set s p nm = upd_node s p (\<lambda>n. n\<lparr> name := nm \<rparr>)"

definition Parent_set :: "'m Scene \<Rightarrow> addr \<Rightarrow> addr option \<Rightarrow> 'm Scene" where
  "Parent_set s p so = upd_node s p (\<lambda>n. n\<lparr> parent := so \<rparr>)"

text \<open>\<^verbatim>\<open>GetChildNode\<close> asserts its index; past the end the read is out of range.\<close>

definition GetChildNode :: "'m Scene \<Rightarrow> addr \<Rightarrow> nat \<Rightarrow> error + addr" where
  "GetChildNode s p i =
     (if i < length (children (nodes s p)) then Inr (children (nodes s p) ! i)
      else Inl IndexOutOfRange)"

definition AddChild :: "'m Scene \<Rightarrow> addr \<Rightarrow> addr \<Rightarrow> 'm Scene" where
  "AddChild s p node =
     upd_node s p (\<lambda>n. n\<lparr> pos_aabb_dirty := True, children := children n @ [node] \<rparr>)"

text \<open>
  \<^verbatim>\<open>std::find\<close> followed by \<^verbatim>\<open>erase\<close>: the first occurrence is removed. The position of
  the first occurrence of \<open>x\<close> in \<open>xs\<close> is \<open>length (takeWhile (\<lambda>y. y \<noteq> x) xs)\<close>.
\<close>

definition find_index :: "'a list \<Rightarrow> 'a \<Rightarrow> nat" where
  "find_index xs x = length (takeWhile (\<lambda>y. y \<noteq> x) xs)"

definition erase_at :: "nat \<Rightarrow> 'a list \<Rightarrow> 'a list" where
  "erase_at i xs = take i xs @ drop (Suc i) xs"

definition RemoveChild :: "'m Scene \<Rightarrow> addr \<Rightarrow> addr \<Rightarrow> 'm Scene" where
  "RemoveChild s p node =
     (let iter = find_index (children (nodes s p)) node in
      if iter \<noteq> length (children (nodes s p))
      then upd_node s p (\<lambda>n. n\<lparr> pos_aabb_dirty := True, children := erase_at iter (children n) \<rparr>)
      else s)"

definition ClearChildren :: "'m Scene \<Rightarrow> addr \<Rightarrow> 'm Scene" where
  "ClearChildren s p = upd_node s p (\<lambda>n. n\<lparr> pos_aabb_dirty := True, children := [] \<rparr>)"

subsection \<open>Drawables\<close>

definition NumRenderables :: "'m Scene \<Rightarrow> addr \<Rightarrow> nat" where
  "NumRenderables s p = length (renderables (nodes s p))"

definition GetRenderable :: "'m Scene \<Rightarrow> addr \<Rightarrow> nat \<Rightarrow> error + rptr" where
  "GetRenderable s p i =
     (if i < length (renderables (nodes s p)) then Inr (renderables (nodes s p) ! i)
      else Inl IndexOutOfRange)"

definition AddRenderable :: "'m Scene \<Rightarrow> addr \<Rightarrow> rptr \<Rightarrow> 'm Scene" where
  "AddRenderable s p renderable =
     upd_node s p (\<lambda>n. n\<lparr> renderables := renderables n @ [renderable],
                          renderables_hw_res_ready := renderables_hw_res_ready n @ [False],
                          pos_aabb_dirty := True \<rparr>)"

text \<open>
  \<^verbatim>\<open>DelRenderable\<close> erases the drawable at the position \<^verbatim>\<open>std::find\<close> returns and the
  readiness flag at the same offset from the start of its own vector; an offset past the
  end of the flag vector is an out-of-range erase.
\<close>

definition DelRenderable :: "'m Scene \<Rightarrow> addr \<Rightarrow> rptr \<Rightarrow> error + 'm Scene" where
  "DelRenderable s p renderable =
     (let iter = find_index (renderables (nodes s p)) renderable in
      if iter \<noteq> length (renderables (nodes s p))
      then (if iter < length (renderables_hw_res_ready (nodes s p))
            then Inr (upd_node s p (\<lambda>n. n\<lparr> renderables := erase_at iter (renderables n),
                       renderables_hw_res_ready := erase_at iter (renderables_hw_res_ready n),
                       pos_aabb_dirty := True \<rparr>))
            else Inl IndexOutOfRange)
      else Inr s)"

subsection \<open>Per-drawable queries\<close>

text \<open>
  Each query reads \<^verbatim>\<open>renderables_[0]\<close>, tests the pointer, and either forwards to the
  drawable or returns false. On an empty vector the read itself is out of range.
\<close>

definition first_renderable_flag ::
  "('m Renderable \<Rightarrow> bool) \<Rightarrow> 'm Scene \<Rightarrow> addr \<Rightarrow> error + bool" where
  "first_renderable_flag flag s p =
     (case renderables (nodes s p) of
        [] \<Rightarrow> Inl IndexOutOfRange
      | r0 # _ \<Rightarrow> (case r0 of Some r \<Rightarrow> Inr (flag (rends s r)) | None \<Rightarrow> Inr False))"

definition SelectMode :: "'m Scene \<Rightarrow> addr \<Rightarrow> error + bool" where
  "SelectMode = first_renderable_flag r_SelectMode"

definition TransparencyBackFace :: "'m Scene \<Rightarrow> addr \<Rightarrow> error + bool" where
  "TransparencyBackFace = first_renderable_flag r_TransparencyBackFace"

definition TransparencyFrontFace :: "'m Scene \<Rightarrow> addr \<Rightarrow> error + bool" where
  "TransparencyFrontFace = first_renderable_flag r_TransparencyFrontFace"

definition SSS :: "'m Scene \<Rightarrow> addr \<Rightarrow> error + bool" where
  "SSS = first_renderable_flag r_SSS"

definition Reflection :: "'m Scene \<Rightarrow> addr \<Rightarrow> error + bool" where
  "Reflection = first_renderable_flag r_Reflection"

definition SimpleForward :: "'m Scene \<Rightarrow> addr \<Rightarrow> error + bool" where
  "SimpleForward = first_renderable_flag r_SimpleForward"

definition VDM :: "'m Scene \<Rightarrow> addr \<Rightarrow> error + bool" where
  "VDM = first_renderable_flag r_VDM"

subsection \<open>Sequencing\<close>

text \<open>
  A call that recurses through child pointers need not return (nothing in the source
  stops a cycle), so such operations take a bound on the depth of the recursion: \<open>None\<close>
  says that the bound was reached. An operation that can also go wrong returns
  \<open>Some (Inl e)\<close> for the error and \<open>Some (Inr x)\<close> for a normal return.
\<close>

fun bind_run :: "(error + 'a) option \<Rightarrow> ('a \<Rightarrow> (error + 'b) option) \<Rightarrow> (error + 'b) option" where
  "bind_run None f = None"
| "bind_run (Some (Inl e)) f = Some (Inl e)"
| "bind_run (Some (Inr x)) f = f x"

text \<open>A range-based \<^verbatim>\<open>for\<close> loop whose body may fail or not return.\<close>

fun for_each :: "('a \<Rightarrow> 's \<Rightarrow> (error + 's) option) \<Rightarrow> 'a list \<Rightarrow> 's \<Rightarrow> (error + 's) option" where
  "for_each f [] s = Some (Inr s)"
| "for_each f (x # xs) s = bind_run (f x s) (for_each f xs)"

text \<open>The same loop for a body that cannot fail.\<close>

fun for_each_o :: "('a \<Rightarrow> 's \<Rightarrow> 's option) \<Rightarrow> 'a list \<Rightarrow> 's \<Rightarrow> 's option" where
  "for_each_o f [] s = Some s"
| "for_each_o f (x # xs) s = (case f x s of None \<Rightarrow> None | Some s' \<Rightarrow> for_each_o f xs s')"

subsection \<open>Search by name\<close>

text \<open>The loop of \<^verbatim>\<open>FindFirstNode\<close>: it stops at the first child that returns a node.\<close>

fun first_hit :: "(addr \<Rightarrow> addr option option) \<Rightarrow> addr list \<Rightarrow> addr option option" where
  "first_hit f [] = Some None"
| "first_hit f (c # cs) =
     (case f c of None \<Rightarrow> None
      | Some None \<Rightarrow> first_hit f cs
      | Some (Some r) \<Rightarrow> Some (Some r))"

primrec FindFirstNode :: "nat \<Rightarrow> 'm Scene \<Rightarrow> addr \<Rightarrow> string \<Rightarrow> addr option option" where
  "FindFirstNode 0 s p nm = None"
| "FindFirstNode (Suc k) s p nm =
     (if name (nodes s p) = nm then Some (Some p)
      else first_hit (\<lambda>child. FindFirstNode k s child nm) (children (nodes s p)))"

text \<open>The private overload of \<^verbatim>\<open>FindAllNode\<close> appends to the vector it is given.\<close>

primrec FindAllNode_into :: "nat \<Rightarrow> 'm Scene \<Rightarrow> addr \<Rightarrow> string \<Rightarrow> addr list \<Rightarrow> addr list option" where
  "FindAllNode_into 0 s p nm acc = None"
| "FindAllNode_into (Suc k) s p nm acc =
     for_each_o (\<lambda>child acc'. FindAllNode_into k s child nm acc') (children (nodes s p))
       (if name (nodes s p) = nm then acc @ [p] else acc)"

definition FindAllNode :: "nat \<Rightarrow> 'm Scene \<Rightarrow> addr \<Rightarrow> string \<Rightarrow> addr list option" where
  "FindAllNode fuel s p nm = FindAllNode_into fuel s p nm []"

fun any_hit :: "(addr \<Rightarrow> bool option) \<Rightarrow> addr list \<Rightarrow> bool option" where
  "any_hit f [] = Some False"
| "any_hit f (c # cs) =
     (case f c of None \<Rightarrow> None | Some True \<Rightarrow> Some True | Some False \<Rightarrow> any_hit f cs)"

primrec IsNodeInSubTree :: "nat \<Rightarrow> 'm Scene \<Rightarrow> addr \<Rightarrow> addr \<Rightarrow> bool option" where
  "IsNodeInSubTree 0 s p node = None"
| "IsNodeInSubTree (Suc k) s p node =
     (if node = p then Some True
      else any_hit (\<lambda>child. IsNodeInSubTree k s child node) (children (nodes s p)))"

subsection \<open>Transform and bound\<close>

definition ModelMatrix_set :: "'m Scene \<Rightarrow> addr \<Rightarrow> 'm \<Rightarrow> 'm Scene" where
  "ModelMatrix_set s p mat = upd_node s p (\<lambda>n. n\<lparr> model := mat \<rparr>)"

definition ModelMatrix :: "'m Scene \<Rightarrow> addr \<Rightarrow> 'm" where
  "ModelMatrix s p = model (nodes s p)"

definition AbsModelMatrix :: "'m Scene \<Rightarrow> addr \<Rightarrow> 'm" where
  "AbsModelMatrix s p = abs_model (nodes s p)"

text \<open>\<^verbatim>\<open>PosBoundWS\<close> dereferences the world bound, which a node need not have.\<close>

definition PosBoundWS :: "'m Scene \<Rightarrow> addr \<Rightarrow> error + AABBox" where
  "PosBoundWS s p = (case pos_aabb_ws (nodes s p) of None \<Rightarrow> Inl NullPointer | Some b \<Rightarrow> Inr b)"

definition VisibleMark_set :: "'m Scene \<Rightarrow> addr \<Rightarrow> BoundOverlap \<Rightarrow> 'm Scene" where
  "VisibleMark_set s p vm = upd_node s p (\<lambda>n. n\<lparr> visible_mark := vm \<rparr>)"

definition VisibleMark :: "'m Scene \<Rightarrow> addr \<Rightarrow> BoundOverlap" where
  "VisibleMark s p = visible_mark (nodes s p)"

text \<open>
  The first part of \<^verbatim>\<open>UpdatePosBound\<close>: the bound of \<^verbatim>\<open>renderables_[0]\<close>, united with
  the bounds of the drawables after it. No pointer is tested before it is dereferenced.
\<close>

fun union_PosBounds :: "(nat \<Rightarrow> 'm Renderable) \<Rightarrow> AABBox \<Rightarrow> rptr list \<Rightarrow> error + AABBox" where
  "union_PosBounds R b [] = Inr b"
| "union_PosBounds R b (None # rs) = Inl NullPointer"
| "union_PosBounds R b (Some r # rs) = union_PosBounds R (aabb_union b (PosBound (R r))) rs"

fun drawables_PosBound :: "(nat \<Rightarrow> 'm Renderable) \<Rightarrow> rptr list \<Rightarrow> error + AABBox" where
  "drawables_PosBound R [] = Inl IndexOutOfRange"
| "drawables_PosBound R (None # rs) = Inl NullPointer"
| "drawables_PosBound R (Some r # rs) = union_PosBounds R (PosBound (R r)) rs"

text \<open>
  The body of the loop over the children in \<^verbatim>\<open>UpdatePosBound\<close>, given the recursive
  call: a child that has a local bound is updated and its bound is united into the
  bound of \<open>p\<close>. A child without a bound is skipped.
\<close>

definition unite_child ::
  "('m Scene \<Rightarrow> addr \<Rightarrow> (error + 'm Scene) option) \<Rightarrow> addr \<Rightarrow> addr \<Rightarrow> 'm Scene \<Rightarrow> (error + 'm Scene) option" where
  "unite_child upd p child s =
     (if pos_aabb_os (nodes s child) \<noteq> None
      then bind_run (upd s child)
             (\<lambda>s'. case pos_aabb_os (nodes s' p) of
                      None \<Rightarrow> Some (Inl NullPointer)
                    | Some b \<Rightarrow>
                        (case pos_aabb_os (nodes s' child) of
                           None \<Rightarrow> Some (Inl NullPointer)
                         | Some cb \<Rightarrow>
                             Some (Inr (upd_node s' p (\<lambda>n. n\<lparr> pos_aabb_os := Some (aabb_union b cb) \<rparr>)))))
      else Some (Inr s))"

primrec UpdatePosBound :: "nat \<Rightarrow> 'm Scene \<Rightarrow> addr \<Rightarrow> (error + 'm Scene) option" where
  "UpdatePosBound 0 s p = None"
| "UpdatePosBound (Suc k) s p =
     (if pos_aabb_dirty (nodes s p)
      then bind_run
             (if pos_aabb_os (nodes s p) \<noteq> None
              then (case drawables_PosBound (rends s) (renderables (nodes s p)) of
                      Inl e \<Rightarrow> Some (Inl e)
                    | Inr b \<Rightarrow>
                        for_each (unite_child (UpdatePosBound k) p) (children (nodes s p))
                          (upd_node s p (\<lambda>n. n\<lparr> pos_aabb_os := Some b \<rparr>)))
              else Some (Inr s))
             (\<lambda>s'. Some (Inr (upd_node s' p (\<lambda>n. n\<lparr> pos_aabb_dirty := False \<rparr>))))
      else Some (Inr s))"

text \<open>\<^verbatim>\<open>renderable->ModelMatrix(abs_model_)\<close> for every drawable of the node.\<close>

definition set_renderable_model :: "'m \<Rightarrow> rptr \<Rightarrow> 'm Scene \<Rightarrow> (error + 'm Scene) option" where
  "set_renderable_model mat renderable s =
     (case renderable of
        None \<Rightarrow> Some (Inl NullPointer)
      | Some r \<Rightarrow> Some (Inr (s\<lparr> rends := (rends s)(r := (rends s r)\<lparr> r_ModelMatrix := mat \<rparr>) \<rparr>)))"

definition UpdateAbsModelMatrix :: "'m MathLib \<Rightarrow> nat \<Rightarrow> 'm Scene \<Rightarrow> addr \<Rightarrow> (error + 'm Scene) option" where
  "UpdateAbsModelMatrix M fuel s p =
     (let s1 = upd_node s p (\<lambda>n. n\<lparr> abs_model :=
                 (case parent n of
                    Some q \<Rightarrow> mat_mul M (ModelMatrix s q) (model n)
                  | None \<Rightarrow> model n) \<rparr>)
      in if renderables (nodes s1 p) \<noteq> []
         then bind_run
                (if pos_aabb_ws (nodes s1 p) \<noteq> None
                 then bind_run (UpdatePosBound fuel s1 p)
                        (\<lambda>s2. case pos_aabb_os (nodes s2 p) of
                                 None \<Rightarrow> Some (Inl NullPointer)
                               | Some b \<Rightarrow>
                                   Some (Inr (upd_node s2 p (\<lambda>n. n\<lparr> pos_aabb_ws :=
                                     Some (transform_aabb M b (abs_model n)) \<rparr>))))
                 else Some (Inr s1))
                (\<lambda>s3. for_each (set_renderable_model (abs_model (nodes s3 p)))
                         (renderables (nodes s3 p)) s3)
         else Some (Inr s1))"

subsection \<open>Visibility\<close>

definition Visible :: "'m Scene \<Rightarrow> addr \<Rightarrow> bool" where
  "Visible s p \<longleftrightarrow> 0 = attrib (nodes s p) AND SOA_Invisible"

primrec Visible_set :: "nat \<Rightarrow> 'm Scene \<Rightarrow> addr \<Rightarrow> bool \<Rightarrow> 'm Scene option" where
  "Visible_set 0 s p vis = None"
| "Visible_set (Suc k) s p vis =
     (let s1 = upd_node s p (\<lambda>n. n\<lparr> attrib :=
                 (if vis then attrib n AND NOT SOA_Invisible else attrib n OR SOA_Invisible) \<rparr>)
      in for_each_o (\<lambda>child s'. Visible_set k s' child vis) (children (nodes s1 p)) s1)"

subsection \<open>Selection and object id\<close>

definition set_renderable_select :: "bool \<Rightarrow> rptr \<Rightarrow> 'm Scene \<Rightarrow> (error + 'm Scene) option" where
  "set_renderable_select select_mode renderable s =
     (case renderable of
        None \<Rightarrow> Some (Inl NullPointer)
      | Some r \<Rightarrow> Some (Inr (s\<lparr> rends := (rends s)(r := (rends s r)\<lparr> r_SelectMode := select_mode \<rparr>) \<rparr>)))"

definition SelectMode_set :: "'m Scene \<Rightarrow> addr \<Rightarrow> bool \<Rightarrow> (error + 'm Scene) option" where
  "SelectMode_set s p select_mode =
     for_each (set_renderable_select select_mode) (renderables (nodes s p)) s"

definition set_renderable_id :: "32 word \<Rightarrow> rptr \<Rightarrow> 'm Scene \<Rightarrow> (error + 'm Scene) option" where
  "set_renderable_id i renderable s =
     (case renderable of
        None \<Rightarrow> Some (Inl NullPointer)
      | Some r \<Rightarrow> Some (Inr (s\<lparr> rends := (rends s)(r := (rends s r)\<lparr> r_ObjectID := i \<rparr>) \<rparr>)))"

definition ObjectID_set :: "'m Scene \<Rightarrow> addr \<Rightarrow> 32 word \<Rightarrow> (error + 'm Scene) option" where
  "ObjectID_set s p i = for_each (set_renderable_id i) (renderables (nodes s p)) s"

subsection \<open>Registration with the scene manager\<close>

text \<open>
  Modelled from the spec: \<^verbatim>\<open>SceneManager::AddSceneNodeLocked\<close> (its source is not among
  the files) appends the node to the registry. \<^verbatim>\<open>AddToSceneManagerLocked\<close> registers the
  node and then its children, recursively.
\<close>

primrec AddToSceneManagerLocked :: "nat \<Rightarrow> 'm Scene \<Rightarrow> addr \<Rightarrow> 'm Scene option" where
  "AddToSceneManagerLocked 0 s p = None"
| "AddToSceneManagerLocked (Suc k) s p =
     for_each_o (\<lambda>child s'. AddToSceneManagerLocked k s' child) (children (nodes s p))
       (s\<lparr> scene_nodes := scene_nodes s @ [p] \<rparr>)"

text \<open>
  \<^verbatim>\<open>AddToSceneManager\<close> is the same traversal without the lock, which the model does not
  have.
\<close>

definition AddToSceneManager :: "nat \<Rightarrow> 'm Scene \<Rightarrow> addr \<Rightarrow> 'm Scene option" where
  "AddToSceneManager = AddToSceneManagerLocked"

text \<open>
  Modelled from the spec: \<^verbatim>\<open>SceneManager::DelSceneNodeLocked\<close> erases the node from the
  registry by identity. \<^verbatim>\<open>DelFromSceneManagerLocked\<close> unregisters the children first,
  then the node.
\<close>

primrec DelFromSceneManagerLocked :: "nat \<Rightarrow> 'm Scene \<Rightarrow> addr \<Rightarrow> 'm Scene option" where
  "DelFromSceneManagerLocked 0 s p = None"
| "DelFromSceneManagerLocked (Suc k) s p =
     (case for_each_o (\<lambda>child s'. DelFromSceneManagerLocked k s' child) (children (nodes s p)) s of
        None \<Rightarrow> None
      | Some s1 \<Rightarrow> Some (s1\<lparr> scene_nodes := erase_at (find_index (scene_nodes s1) p) (scene_nodes s1) \<rparr>))"

definition DelFromSceneManager :: "nat \<Rightarrow> 'm Scene \<Rightarrow> addr \<Rightarrow> 'm Scene option" where
  "DelFromSceneManager = DelFromSceneManagerLocked"

subsection \<open>Render pass\<close>

definition set_renderable_pass :: "nat \<Rightarrow> rptr \<Rightarrow> 'm Scene \<Rightarrow> (error + 'm Scene) option" where
  "set_renderable_pass type renderable s =
     (case renderable of
        None \<Rightarrow> Some (Inl NullPointer)
      | Some r \<Rightarrow> Some (Inr (s\<lparr> rends := (rends s)(r := (rends s r)\<lparr> r_Pass := type \<rparr>) \<rparr>)))"

text \<open>
  \<^verbatim>\<open>Pass(type)\<close>. The pass types and \<^verbatim>\<open>GetPassCategory\<close> are declared outside the sources:
  a pass type is the number of its enumerator, and \<open>is_shadow_map type\<close> stands for
  \<^verbatim>\<open>PC_ShadowMap == GetPassCategory(type)\<close>.
\<close>

definition Pass :: "(nat \<Rightarrow> bool) \<Rightarrow> nat \<Rightarrow> 'm Scene \<Rightarrow> addr \<Rightarrow> nat \<Rightarrow> (error + 'm Scene) option" where
  "Pass is_shadow_map fuel s p type =
     bind_run (for_each (set_renderable_pass type) (renderables (nodes s p)) s)
       (\<lambda>s1. if attrib (nodes s1 p) AND SOA_NotCastShadow \<noteq> 0
              then (case Visible_set fuel s1 p (\<not> is_shadow_map type) of
                      None \<Rightarrow> None
                    | Some s2 \<Rightarrow> Some (Inr s2))
              else Some (Inr s1))"

subsection \<open>Expansion of composite drawables\<close>

text \<open>
  The body of the inner loop of \<^verbatim>\<open>OnAttachRenderable\<close> for the sub-drawable \<open>sub\<close> of a
  drawable of node \<open>p\<close>. \<^verbatim>\<open>MakeSharedPtr<SceneNode>(sub, attrib_)\<close> allocates the child and
  runs the constructor \<^verbatim>\<open>SceneNode(renderable, attrib)\<close>: the plain constructor, then
  \<^verbatim>\<open>AddRenderable\<close>, then \<^verbatim>\<open>OnAttachRenderable(false)\<close> on the child (\<open>attach\<close>, the
  recursive call). Then the child gets its parent and its slot in \<^verbatim>\<open>children_\<close>. The
  source first resizes \<^verbatim>\<open>children_\<close> and then fills the slots in ascending order, and
  nothing reads the vector in between, so each child is appended here.
\<close>

definition attach_sub ::
  "'m MathLib \<Rightarrow> ('m Scene \<Rightarrow> addr \<Rightarrow> 'm Scene option) \<Rightarrow> ('m Scene \<Rightarrow> addr \<Rightarrow> 'm Scene option) \<Rightarrow>
     addr \<Rightarrow> bool \<Rightarrow> rptr \<Rightarrow> 'm Scene \<Rightarrow> 'm Scene option" where
  "attach_sub M attach register p add_to_scene sub s =
     (case alloc_node s (SceneNode_init M (attrib (nodes s p))) of
        (s1, child) \<Rightarrow>
          (case attach (AddRenderable s1 child sub) child of
             None \<Rightarrow> None
           | Some s2 \<Rightarrow>
               (let s3 = Parent_set s2 child (Some p);
                    s4 = upd_node s3 p (\<lambda>n. n\<lparr> children := children n @ [child] \<rparr>)
                in if add_to_scene then register s4 child else Some s4)))"

definition attach_renderable ::
  "'m MathLib \<Rightarrow> ('m Scene \<Rightarrow> addr \<Rightarrow> 'm Scene option) \<Rightarrow> ('m Scene \<Rightarrow> addr \<Rightarrow> 'm Scene option) \<Rightarrow>
     addr \<Rightarrow> bool \<Rightarrow> rptr \<Rightarrow> 'm Scene \<Rightarrow> 'm Scene option" where
  "attach_renderable M attach register p add_to_scene renderable s =
     (case renderable of
        None \<Rightarrow> Some s
      | Some r \<Rightarrow>
          for_each_o (attach_sub M attach register p add_to_scene) (Subrenderables (rends s r)) s)"

primrec OnAttachRenderable :: "'m MathLib \<Rightarrow> nat \<Rightarrow> 'm Scene \<Rightarrow> addr \<Rightarrow> bool \<Rightarrow> 'm Scene option" where
  "OnAttachRenderable M 0 s p add_to_scene = None"
| "OnAttachRenderable M (Suc k) s p add_to_scene =
     for_each_o
       (attach_renderable M (\<lambda>s' c. OnAttachRenderable M k s' c False)
          (AddToSceneManagerLocked k) p add_to_scene)
       (renderables (nodes s p)) s"

text \<open>\<^verbatim>\<open>MakeSharedPtr<SceneNode>(renderable, attrib)\<close>, for a caller outside the class.\<close>

definition SceneNode_with_renderable ::
  "'m MathLib \<Rightarrow> nat \<Rightarrow> 'm Scene \<Rightarrow> rptr \<Rightarrow> 32 word \<Rightarrow> ('m Scene \<times> addr) option" where
  "SceneNode_with_renderable M fuel s renderable a =
     (case alloc_node s (SceneNode_init M a) of
        (s1, p) \<Rightarrow>
          (case OnAttachRenderable M fuel (AddRenderable s1 p renderable) p False of
             None \<Rightarrow> None
           | Some s2 \<Rightarrow> Some (s2, p)))"

subsection \<open>Update callbacks\<close>

definition BindSubThreadUpdateFunc :: "'m Scene \<Rightarrow> addr \<Rightarrow> nat option \<Rightarrow> 'm Scene" where
  "BindSubThreadUpdateFunc s p update_func =
     upd_node s p (\<lambda>n. n\<lparr> sub_thread_update_func := update_func \<rparr>)"

definition BindMainThreadUpdateFunc :: "'m Scene \<Rightarrow> addr \<Rightarrow> nat option \<Rightarrow> 'm Scene" where
  "BindMainThreadUpdateFunc s p update_func =
     upd_node s p (\<lambda>n. n\<lparr> main_thread_update_func := update_func \<rparr>)"

definition SubThreadUpdate :: "'m callbacks \<Rightarrow> 'm Scene \<Rightarrow> addr \<Rightarrow> real \<Rightarrow> real \<Rightarrow> 'm Scene" where
  "SubThreadUpdate cbs s p app_time elapsed_time =
     (case sub_thread_update_func (nodes s p) of
        Some f \<Rightarrow> cbs f s p app_time elapsed_time
      | None \<Rightarrow> s)"

text \<open>
  The first loop of \<^verbatim>\<open>MainThreadUpdate\<close>, from index \<open>i\<close> on, over the drawables that are
  left. The readiness flag is read only for a drawable that is not null.
\<close>

fun scan_ready ::
  "(nat \<Rightarrow> 'm Renderable) \<Rightarrow> rptr list \<Rightarrow> nat \<Rightarrow> bool list \<Rightarrow> bool \<Rightarrow> error + bool list \<times> bool" where
  "scan_ready R [] i ready refreshed = Inr (ready, refreshed)"
| "scan_ready R (None # rs) i ready refreshed = scan_ready R rs (Suc i) ready refreshed"
| "scan_ready R (Some r # rs) i ready refreshed =
     (if i < length ready
      then (if \<not> ready ! i \<and> HWResourceReady (R r)
            then scan_ready R rs (Suc i) (ready[i := True]) True
            else scan_ready R rs (Suc i) ready refreshed)
      else Inl IndexOutOfRange)"

definition run_main_thread_update_func ::
  "'m callbacks \<Rightarrow> 'm Scene \<Rightarrow> addr \<Rightarrow> real \<Rightarrow> real \<Rightarrow> 'm Scene" where
  "run_main_thread_update_func cbs s p app_time elapsed_time =
     (case main_thread_update_func (nodes s p) of
        Some f \<Rightarrow> cbs f s p app_time elapsed_time
      | None \<Rightarrow> s)"

definition MainThreadUpdate ::
  "'m MathLib \<Rightarrow> 'm callbacks \<Rightarrow> nat \<Rightarrow> 'm Scene \<Rightarrow> addr \<Rightarrow> real \<Rightarrow> real \<Rightarrow> (error + 'm Scene \<times> bool) option" where
  "MainThreadUpdate M cbs fuel s p app_time elapsed_time =
     (case scan_ready (rends s) (renderables (nodes s p)) 0 (renderables_hw_res_ready (nodes s p)) False of
        Inl e \<Rightarrow> Some (Inl e)
      | Inr (ready, refreshed) \<Rightarrow>
          bind_run
            (let s1 = upd_node s p (\<lambda>n. n\<lparr> renderables_hw_res_ready := ready \<rparr>)
             in if refreshed
                then (case OnAttachRenderable M fuel s1 p False of
                        None \<Rightarrow> None
                      | Some s2 \<Rightarrow> UpdateAbsModelMatrix M fuel s2 p)
                else Some (Inr s1))
            (\<lambda>s3. Some (Inr (run_main_thread_update_func cbs s3 p app_time elapsed_time, refreshed))))"

section \<open>Trees in the store\<close>

text \<open>
  The claims about subtrees speak of the tree that the child pointers span. A tree of
  addresses describes it: \<open>shape h t\<close> says that in the store \<open>h\<close> the child list of every
  node of \<open>t\<close> is the list of the roots of its subtrees.
\<close>

datatype tree = Tr addr "tree list"

fun tree_root :: "tree \<Rightarrow> addr" where
  "tree_root (Tr p ts) = p"

fun subtrees :: "tree \<Rightarrow> tree list" where
  "subtrees (Tr p ts) = ts"

fun preorder :: "tree \<Rightarrow> addr list" where
  "preorder (Tr p ts) = p # concat (map preorder ts)"

fun height :: "tree \<Rightarrow> nat" where
  "height (Tr p ts) = Suc (fold max (map height ts) 0)"

fun shape :: "(addr \<Rightarrow> 'm SceneNode) \<Rightarrow> tree \<Rightarrow> bool" where
  "shape h (Tr p ts) \<longleftrightarrow> children (h p) = map tree_root ts \<and> list_all (shape h) ts"

section \<open>An instance of the mathematics, for concrete scenes\<close>

text \<open>
  Modelled from the spec: the mathematics of \<^verbatim>\<open>KFL/Math.hpp\<close> is not among the sources.
  For concrete scenes the parameters are instantiated with matrices of real entries (a
  list of four rows), the row-by-column product, and a \<^verbatim>\<open>transform_aabb\<close> that bounds
  the eight transformed corners (points are row vectors, as in \<^verbatim>\<open>v * mat\<close>). The
  matrices used below have small integer entries, on which single-precision arithmetic
  is exact.
\<close>

type_synonym float4x4 = "real list list"

definition mat4_mul :: "float4x4 \<Rightarrow> float4x4 \<Rightarrow> float4x4" where
  "mat4_mul a b =
     map (\<lambda>row. map (\<lambda>j. row ! 0 * b ! 0 ! j + row ! 1 * b ! 1 ! j + row ! 2 * b ! 2 ! j
                            + row ! 3 * b ! 3 ! j) [0, 1, 2, 3]) a"

definition mat4_identity :: float4x4 where
  "mat4_identity = [[1, 0, 0, 0], [0, 1, 0, 0], [0, 0, 1, 0], [0, 0, 0, 1]]"

definition mat4_scaling :: "real \<Rightarrow> float4x4" where
  "mat4_scaling k = [[k, 0, 0, 0], [0, k, 0, 0], [0, 0, k, 0], [0, 0, 0, 1]]"

definition transform_coord :: "float3 \<Rightarrow> float4x4 \<Rightarrow> float3" where
  "transform_coord v m =
     (case v of (x, y, z) \<Rightarrow>
        (x * m ! 0 ! 0 + y * m ! 1 ! 0 + z * m ! 2 ! 0 + m ! 3 ! 0,
         x * m ! 0 ! 1 + y * m ! 1 ! 1 + z * m ! 2 ! 1 + m ! 3 ! 1,
         x * m ! 0 ! 2 + y * m ! 1 ! 2 + z * m ! 2 ! 2 + m ! 3 ! 2))"

definition corners :: "AABBox \<Rightarrow> float3 list" where
  "corners b =
     (case box_min b of (x0, y0, z0) \<Rightarrow> case box_max b of (x1, y1, z1) \<Rightarrow>
        [(x0, y0, z0), (x1, y0, z0), (x0, y1, z0), (x1, y1, z0),
         (x0, y0, z1), (x1, y0, z1), (x0, y1, z1), (x1, y1, z1)])"

definition mat4_transform_aabb :: "AABBox \<Rightarrow> float4x4 \<Rightarrow> AABBox" where
  "mat4_transform_aabb b m =
     (let ps = map (\<lambda>v. transform_coord v m) (corners b)
      in \<lparr> box_min = fold minimize (tl ps) (hd ps), box_max = fold maximize (tl ps) (hd ps) \<rparr>)"

definition exact_math :: "float4x4 MathLib" where
  "exact_math = \<lparr> mat_mul = mat4_mul, mat_identity = mat4_identity,
                  transform_aabb = mat4_transform_aabb, aabb_default = cube 0 0 \<rparr>"

text \<open>A drawable with the given bound, readiness and sub-drawables, and every flag off.\<close>

definition drawable :: "AABBox \<Rightarrow> bool \<Rightarrow> rptr list \<Rightarrow> float4x4 Renderable" where
  "drawable b ready subs =
     \<lparr> PosBound = b, HWResourceReady = ready, Subrenderables = subs,
       r_ModelMatrix = mat4_identity, r_SelectMode = False, r_ObjectID = 0, r_Pass = 0,
       r_TransparencyBackFace = False, r_TransparencyFrontFace = False, r_SSS = False,
       r_Reflection = False, r_SimpleForward = False, r_VDM = False \<rparr>"

text \<open>The store before any node is made: no node is allocated, every drawable is
  a unit cube without sub-drawables.\<close>

definition empty_scene :: "float4x4 Scene" where
  "empty_scene =
     \<lparr> nodes = (\<lambda>_. SceneNode_init exact_math 0), rends = (\<lambda>_. drawable (cube 0 1) False []),
       next_node = 0, scene_nodes = [] \<rparr>"

section \<open>Concrete scenes\<close>

text \<open>
  A chain of three grouping nodes without drawables: the root 0 scales by two, its
  child 1 and its grandchild 2 have the identity as their local matrix. Parent pointers
  and child lists agree.
\<close>

definition chain_scene :: "float4x4 Scene" where
  "chain_scene =
     \<lparr> nodes = (\<lambda>_. SceneNode_init exact_math 0)
         (0 := (SceneNode_init exact_math 0)\<lparr> model := mat4_scaling 2, children := [1] \<rparr>,
          1 := (SceneNode_init exact_math 0)\<lparr> parent := Some 0, children := [2] \<rparr>,
          2 := (SceneNode_init exact_math 0)\<lparr> parent := Some 1 \<rparr>),
       rends = (\<lambda>_. drawable (cube 0 1) False []), next_node = 3, scene_nodes = [] \<rparr>"

text \<open>
  Four nodes: the root 0 named R has the children 1 and 3; node 1, named B, has the child
  2; nodes 2 and 3 are both named A, node 2 one level deeper than node 3.
\<close>

definition named_scene :: "float4x4 Scene" where
  "named_scene =
     \<lparr> nodes = (\<lambda>_. SceneNode_init exact_math 0)
         (0 := (SceneNode_named exact_math ''R'' 0)\<lparr> children := [1, 3] \<rparr>,
          1 := (SceneNode_named exact_math ''B'' 0)\<lparr> children := [2] \<rparr>,
          2 := SceneNode_named exact_math ''A'' 0,
          3 := SceneNode_named exact_math ''A'' 0),
       rends = (\<lambda>_. drawable (cube 0 1) False []), next_node = 4, scene_nodes = [] \<rparr>"

definition named_tree :: tree where
  "named_tree = Tr 0 [Tr 1 [Tr 2 []], Tr 3 []]"

section \<open>Frames\<close>

text \<open>
  What \<^verbatim>\<open>Visible(vis)\<close> may change between two stores: of every node only the attribute
  mask, of the mask only the invisible bit, and that bit only to the value asked for.
\<close>

definition vis_frame :: "bool \<Rightarrow> 'm Scene \<Rightarrow> 'm Scene \<Rightarrow> bool" where
  "vis_frame vis s s' \<longleftrightarrow>
     rends s' = rends s \<and> next_node s' = next_node s \<and> scene_nodes s' = scene_nodes s \<and>
     (\<forall>q. nodes s' q = (nodes s q)\<lparr> attrib := attrib (nodes s' q) \<rparr> \<and>
          attrib (nodes s' q) AND NOT SOA_Invisible = attrib (nodes s q) AND NOT SOA_Invisible \<and>
          (attrib (nodes s' q) = attrib (nodes s q) \<or> Visible s' q = vis))"

text \<open>
  What \<^verbatim>\<open>UpdatePosBound\<close> may change between two stores: of every node only the local
  bound and the dirty flag; a bound neither appears nor disappears, and a dirty flag is
  only ever cleared.
\<close>

definition bound_frame :: "'m Scene \<Rightarrow> 'm Scene \<Rightarrow> bool" where
  "bound_frame s s' \<longleftrightarrow>
     rends s' = rends s \<and> next_node s' = next_node s \<and> scene_nodes s' = scene_nodes s \<and>
     (\<forall>q. nodes s' q = (nodes s q)\<lparr> pos_aabb_os := pos_aabb_os (nodes s' q),
                                     pos_aabb_dirty := pos_aabb_dirty (nodes s' q) \<rparr> \<and>
          (pos_aabb_os (nodes s' q) = None \<longleftrightarrow> pos_aabb_os (nodes s q) = None) \<and>
          (pos_aabb_dirty (nodes s' q) \<longrightarrow> pos_aabb_dirty (nodes s q)))"

text \<open>
  \<^verbatim>\<open>UpdatePosBound\<close> dereferences \<^verbatim>\<open>renderables_[0]\<close> and every drawable after it without
  a test, on the node and on every child with a bound that it recurses into. The
  recomputation therefore goes through when every node it visits (a dirty node with a
  bound, reached through children with a bound) has a drawable and no null drawable.
\<close>

fun bound_ready :: "'m Scene \<Rightarrow> tree \<Rightarrow> bool" where
  "bound_ready s (Tr p ts) \<longleftrightarrow>
     (if pos_aabb_dirty (nodes s p) \<and> pos_aabb_os (nodes s p) \<noteq> None
      then renderables (nodes s p) \<noteq> [] \<and> list_all (\<lambda>r. r \<noteq> None) (renderables (nodes s p)) \<and>
           list_all (\<lambda>t. pos_aabb_os (nodes s (tree_root t)) = None \<or> bound_ready s t) ts
      else True)"

text \<open>The local bounds of the children that have one, in the order of the child list.\<close>

definition tracked_child_bounds :: "'m Scene \<Rightarrow> addr \<Rightarrow> AABBox list" where
  "tracked_child_bounds s p = List.map_filter (\<lambda>c. pos_aabb_os (nodes s c)) (children (nodes s p))"

text \<open>
  A cullable root built by the constructor, with two drawables attached whose local
  bounds are the cubes from -1 to 1 and from 0 to 2; its local matrix is the identity.
\<close>

definition two_cubes_scene :: "float4x4 Scene" where
  "two_cubes_scene =
     (let s0 = empty_scene\<lparr> rends := (rends empty_scene)
                 (0 := drawable (cube (- 1) 1) False [], 1 := drawable (cube 0 2) False []) \<rparr>;
          (s1, p) = alloc_node s0 (SceneNode_init exact_math SOA_Cullable)
      in AddRenderable (AddRenderable s1 p (Some 0)) p (Some 1))"

text \<open>
  A cullable root with the first of these drawables and one child with the second. The
  child is moveable and not cullable, so it has a bound of its own.
\<close>

definition moveable_child_scene :: "float4x4 Scene" where
  "moveable_child_scene =
     (let s0 = empty_scene\<lparr> rends := (rends empty_scene)
                 (0 := drawable (cube (- 1) 1) False [], 1 := drawable (cube 0 2) False []) \<rparr>;
          (s1, p) = alloc_node s0 (SceneNode_init exact_math SOA_Cullable);
          s2 = AddRenderable s1 p (Some 0);
          (s3, c) = alloc_node s2 (SceneNode_init exact_math SOA_Moveable);
          s4 = AddRenderable s3 c (Some 1)
      in Parent_set (AddChild s4 p c) c (Some p))"

text \<open>
  The local bound in the words of the specification, for comparison with what
  \<^verbatim>\<open>UpdatePosBound\<close> computes: the union of the bounds of the node's own drawables and of
  the bounds (in the store \<open>s'\<close> after the recomputation) of all its descendants that carry
  the cullable attribute.
\<close>

definition cullable_descendants_bound :: "'m Scene \<Rightarrow> 'm Scene \<Rightarrow> tree \<Rightarrow> AABBox option" where
  "cullable_descendants_bound s s' t =
     (case drawables_PosBound (rends s) (renderables (nodes s (tree_root t))) of
        Inl e \<Rightarrow> None
      | Inr b \<Rightarrow>
          Some (foldl aabb_union b
                  (List.map_filter (\<lambda>q. pos_aabb_os (nodes s' q))
                     (filter (\<lambda>q. attrib (nodes s q) AND SOA_Cullable \<noteq> 0) (tl (preorder t))))))"

section \<open>Invariants of the store\<close>

text \<open>A property of node objects holds throughout a store.\<close>

definition nodes_all :: "('m SceneNode \<Rightarrow> bool) \<Rightarrow> 'm Scene \<Rightarrow> bool" where
  "nodes_all P s \<longleftrightarrow> (\<forall>q. P (nodes s q))"

text \<open>
  The readiness flags and the drawables of every node are lists of the same length, so
  that the flag at an index belongs to the drawable at that index.
\<close>

definition ready_lockstep :: "'m Scene \<Rightarrow> bool" where
  "ready_lockstep s \<longleftrightarrow>
     (\<forall>q. length (renderables_hw_res_ready (nodes s q)) = length (renderables (nodes s q)))"

text \<open>
  Every node has a local bound, and a world bound, exactly when its attribute mask
  passes the test of the constructor.
\<close>

definition bound_presence :: "'m Scene \<Rightarrow> bool" where
  "bound_presence s \<longleftrightarrow>
     (\<forall>q. (pos_aabb_os (nodes s q) \<noteq> None \<longleftrightarrow> tracks_bound (attrib (nodes s q))) \<and>
          (pos_aabb_ws (nodes s q) \<noteq> None \<longleftrightarrow> tracks_bound (attrib (nodes s q))))"

text \<open>
  What the two invariants read of a node: the lengths of the two lists, whether the
  bounds are present, and the attribute bits other than the invisible bit.
\<close>

definition aspects :: "'m SceneNode \<Rightarrow> nat \<times> nat \<times> bool \<times> bool \<times> 32 word" where
  "aspects n =
     (length (renderables n), length (renderables_hw_res_ready n),
      pos_aabb_os n = None, pos_aabb_ws n = None, attrib n AND NOT SOA_Invisible)"

text \<open>
  A property of nodes that reads no more than that, holds of a node fresh from the
  constructor, and survives appending or erasing a drawable together with its flag.
\<close>

definition field_stable :: "'m MathLib \<Rightarrow> ('m SceneNode \<Rightarrow> bool) \<Rightarrow> bool" where
  "field_stable M P \<longleftrightarrow>
     (\<forall>n n'. aspects n' = aspects n \<longrightarrow> P n \<longrightarrow> P n') \<and>
     (\<forall>a. P (SceneNode_init M a)) \<and>
     (\<forall>n r. P n \<longrightarrow> P (n\<lparr> renderables := renderables n @ [r],
                          renderables_hw_res_ready := renderables_hw_res_ready n @ [False] \<rparr>)) \<and>
     (\<forall>n i. P n \<longrightarrow> P (n\<lparr> renderables := erase_at i (renderables n),
                          renderables_hw_res_ready := erase_at i (renderables_hw_res_ready n) \<rparr>))"

text \<open>
  What \<^verbatim>\<open>OnAttachRenderable\<close> may change: it allocates nodes, and of a node that was
  allocated before it changes the child list only.
\<close>

definition attach_frame :: "'m Scene \<Rightarrow> 'm Scene \<Rightarrow> bool" where
  "attach_frame s s' \<longleftrightarrow>
     rends s' = rends s \<and> next_node s \<le> next_node s' \<and>
     (\<forall>q<next_node s. nodes s' q = (nodes s q)\<lparr> children := children (nodes s' q) \<rparr>)"

text \<open>Every node allocated before has a local (world) bound after exactly when it had one.\<close>

definition presence_kept :: "'m Scene \<Rightarrow> 'm Scene \<Rightarrow> bool" where
  "presence_kept s s' \<longleftrightarrow>
     next_node s \<le> next_node s' \<and>
     (\<forall>q<next_node s. (pos_aabb_os (nodes s' q) = None \<longleftrightarrow> pos_aabb_os (nodes s q) = None) \<and>
                       (pos_aabb_ws (nodes s' q) = None \<longleftrightarrow> pos_aabb_ws (nodes s q) = None))"

text \<open>
  The operations of a node, constructors included: \<open>operations_relate\<close> says that the
  store before and the store after every one of them are related by \<open>R\<close>. For an
  operation that may fail or not return this is said of every normal return. The update
  callbacks are arbitrary functions; the two operations that invoke one are covered
  when the callbacks themselves relate the stores.
\<close>

definition operations_relate ::
  "'m MathLib \<Rightarrow> 'm callbacks \<Rightarrow> (nat \<Rightarrow> bool) \<Rightarrow> ('m Scene \<Rightarrow> 'm Scene \<Rightarrow> bool) \<Rightarrow> bool" where
  "operations_relate M cbs is_shadow_map R \<longleftrightarrow>
     (\<forall>s p c r a nm so mat vm uf i sel ty vis add fuel u v.
        R s (fst (alloc_node s (SceneNode_init M a))) \<and>
        R s (fst (alloc_node s (SceneNode_named M nm a))) \<and>
        (\<forall>s' q. SceneNode_with_renderable M fuel s r a = Some (s', q) \<longrightarrow> R s s') \<and>
        R s (Name_set s p nm) \<and>
        R s (Parent_set s p so) \<and>
        R s (AddChild s p c) \<and>
        R s (RemoveChild s p c) \<and>
        R s (ClearChildren s p) \<and>
        R s (AddRenderable s p r) \<and>
        (\<forall>s'. DelRenderable s p r = Inr s' \<longrightarrow> R s s') \<and>
        R s (ModelMatrix_set s p mat) \<and>
        R s (VisibleMark_set s p vm) \<and>
        R s (BindSubThreadUpdateFunc s p uf) \<and>
        R s (BindMainThreadUpdateFunc s p uf) \<and>
        (\<forall>s'. UpdatePosBound fuel s p = Some (Inr s') \<longrightarrow> R s s') \<and>
        (\<forall>s'. UpdateAbsModelMatrix M fuel s p = Some (Inr s') \<longrightarrow> R s s') \<and>
        (\<forall>s'. Visible_set fuel s p vis = Some s' \<longrightarrow> R s s') \<and>
        (\<forall>s'. SelectMode_set s p sel = Some (Inr s') \<longrightarrow> R s s') \<and>
        (\<forall>s'. ObjectID_set s p i = Some (Inr s') \<longrightarrow> R s s') \<and>
        (\<forall>s'. Pass is_shadow_map fuel s p ty = Some (Inr s') \<longrightarrow> R s s') \<and>
        (\<forall>s'. OnAttachRenderable M fuel s p add = Some s' \<longrightarrow> R s s') \<and>
        (\<forall>s'. AddToSceneManager fuel s p = Some s' \<longrightarrow> R s s') \<and>
        (\<forall>s'. AddToSceneManagerLocked fuel s p = Some s' \<longrightarrow> R s s') \<and>
        (\<forall>s'. DelFromSceneManager fuel s p = Some s' \<longrightarrow> R s s') \<and>
        (\<forall>s'. DelFromSceneManagerLocked fuel s p = Some s' \<longrightarrow> R s s') \<and>
        ((\<forall>f x q t dt. R x (cbs f x q t dt)) \<longrightarrow>
           R s (SubThreadUpdate cbs s p u v) \<and>
           (\<forall>s' b. MainThreadUpdate M cbs fuel s p u v = Some (Inr (s', b)) \<longrightarrow> R s s')))"

text \<open>
  The scene with the two cubes after the first drawable has been marked ready, and a
  table of callbacks that leave the store alone.
\<close>

definition ready_scene :: "float4x4 Scene" where
  "ready_scene = upd_node two_cubes_scene 0 (\<lambda>n. n\<lparr> renderables_hw_res_ready := [True, False] \<rparr>)"

definition no_callbacks :: "float4x4 callbacks" where
  "no_callbacks f s p app_time elapsed_time = s"

text \<open>
  A cullable root whose single drawable is a model with two meshes; all three
  drawables report their hardware resources ready, and the root has not yet seen it.
\<close>

definition model_scene :: "float4x4 Scene" where
  "model_scene =
     (let s0 = empty_scene\<lparr> rends := (rends empty_scene)
                 (0 := drawable (cube (- 1) 1) True [Some 1, Some 2],
                  1 := drawable (cube (- 1) 0) True [],
                  2 := drawable (cube 0 1) True []) \<rparr>;
          (s1, p) = alloc_node s0 (SceneNode_init exact_math SOA_Cullable)
      in AddRenderable s1 p (Some 0))"

section \<open>The recomputed local bound\<close>

text \<open>
  The union of the bounds of a node's own drawables, in the order of the list; there is
  none when the node has no drawable.
\<close>

definition drawables_bound :: "(nat \<Rightarrow> 'm Renderable) \<Rightarrow> rptr list \<Rightarrow> AABBox option" where
  "drawables_bound R rs =
     (case List.map_filter (map_option (\<lambda>r. PosBound (R r))) rs of
        [] \<Rightarrow> None
      | b # bs \<Rightarrow> Some (foldl aabb_union b bs))"

text \<open>
  The local bound that a recomputation leaves at the root of a tree, read off the store
  before the recomputation: a node that is not dirty keeps the bound it has; a dirty
  node gets the union of the bounds of its own drawables and of the local bounds of its
  direct children that track a bound, that is the children that are not overlays and
  are cullable or moveable, each child's bound being recomputed first in the same way.
  Children that do not track a bound contribute nothing, whatever lies below them.
\<close>

fun recomputed_bound :: "'m Scene \<Rightarrow> tree \<Rightarrow> AABBox option" where
  "recomputed_bound s (Tr p ts) =
     (if pos_aabb_dirty (nodes s p)
      then (case drawables_bound (rends s) (renderables (nodes s p)) of
              None \<Rightarrow> None
            | Some b \<Rightarrow>
                Some (foldl aabb_union b
                  (List.map_filter id
                     (map (recomputed_bound s)
                        (filter (\<lambda>t. tracks_bound (attrib (nodes s (tree_root t)))) ts)))))
      else pos_aabb_os (nodes s p))"

text \<open>
  A cullable root 0 with a drawable bounded by the cube from -1 to 1 and two children.
  Child 1 is cullable, has a drawable bounded by the cube from 0 to 2 and a moveable
  child 2 whose drawable is bounded by the cube from 2 to 3. Child 3 is a cullable
  overlay, which tracks no bound; its drawable is bounded by the cube from 5 to 6. All
  matrices are the identity, every node is dirty as the constructor and
  \<^verbatim>\<open>AddRenderable\<close> leave it, and parent pointers and child lists agree.
\<close>

definition family_scene :: "float4x4 Scene" where
  "family_scene =
     \<lparr> nodes = (\<lambda>_. SceneNode_init exact_math 0)
         (0 := (SceneNode_init exact_math SOA_Cullable)
                 \<lparr> children := [1, 3], renderables := [Some 0], renderables_hw_res_ready := [False] \<rparr>,
          1 := (SceneNode_init exact_math SOA_Cullable)
                 \<lparr> parent := Some 0, children := [2], renderables := [Some 1],
                   renderables_hw_res_ready := [False] \<rparr>,
          2 := (SceneNode_init exact_math SOA_Moveable)
                 \<lparr> parent := Some 1, renderables := [Some 2], renderables_hw_res_ready := [False] \<rparr>,
          3 := (SceneNode_init exact_math (SOA_Cullable OR SOA_Overlay))
                 \<lparr> parent := Some 0, renderables := [Some 3], renderables_hw_res_ready := [False] \<rparr>),
       rends = (\<lambda>_. drawable (cube 0 1) False [])
         (0 := drawable (cube (- 1) 1) False [], 1 := drawable (cube 0 2) False [],
          2 := drawable (cube 2 3) False [], 3 := drawable (cube 5 6) False []),
       next_node = 4, scene_nodes = [] \<rparr>"

definition family_tree :: tree where
  "family_tree = Tr 0 [Tr 1 [Tr 2 []], Tr 3 []]"

text \<open>
  A cullable root with one drawable, which reports its hardware resources ready, and
  to which \<^verbatim>\<open>AddChild\<close> has added a cullable child made by \<^verbatim>\<open>SceneNode(attrib)\<close>: the
  child has a bound and no drawable.
\<close>

definition bare_child_scene :: "float4x4 Scene" where
  "bare_child_scene =
     (let s0 = empty_scene\<lparr> rends := (rends empty_scene)(0 := drawable (cube (- 1) 1) True []) \<rparr>;
          (s1, p) = alloc_node s0 (SceneNode_init exact_math SOA_Cullable);
          s2 = AddRenderable s1 p (Some 0);
          (s3, c) = alloc_node s2 (SceneNode_init exact_math SOA_Cullable)
      in Parent_set (AddChild s3 p c) c (Some p))"

section \<open>Properties\<close>

subsection \<open>Lists\<close>

lemma find_index_absent: "x \<notin> set xs \<Longrightarrow> find_index xs x = length xs"
  unfolding find_index_def by (induction xs) auto

lemma find_index_present: "x \<in> set xs \<Longrightarrow> find_index xs x < length xs"
  unfolding find_index_def by (induction xs) auto

lemma find_index_nth: "x \<in> set xs \<Longrightarrow> xs ! find_index xs x = x"
  unfolding find_index_def by (induction xs) auto

lemma find_index_le: "find_index xs x \<le> length xs"
  unfolding find_index_def by (rule length_takeWhile_le)

subsection \<open>The world matrix\<close>

text \<open>
  C1. After \<^verbatim>\<open>UpdateAbsModelMatrix\<close> has run top-down from a root, the world matrix of
  every node should be its parent's world matrix times its own local matrix. The
  source multiplies by the parent's local matrix (\<^verbatim>\<open>parent_->ModelMatrix()\<close>) instead, so
  the property fails two levels below a root whose local matrix is not the identity:
  in the chain scene, updated root first, the grandchild's world matrix is the identity
  although its parent's world matrix is the scaling by two.
\<close>

theorem UpdateAbsModelMatrix_uses_parent_local_matrix:
  "\<exists>s1 s2 s3.
     UpdateAbsModelMatrix exact_math fuel chain_scene 0 = Some (Inr s1) \<and>
     UpdateAbsModelMatrix exact_math fuel s1 1 = Some (Inr s2) \<and>
     UpdateAbsModelMatrix exact_math fuel s2 2 = Some (Inr s3) \<and>
     children (nodes s3 0) = [1] \<and> children (nodes s3 1) = [2] \<and>
     parent (nodes s3 0) = None \<and> parent (nodes s3 1) = Some 0 \<and> parent (nodes s3 2) = Some 1 \<and>
     AbsModelMatrix s3 0 = ModelMatrix s3 0 \<and>
     AbsModelMatrix s3 1 = mat4_scaling 2 \<and>
     ModelMatrix s3 2 = mat4_identity \<and>
     AbsModelMatrix s3 2 = mat4_identity \<and>
     mat_mul exact_math (AbsModelMatrix s3 1) (ModelMatrix s3 2) = mat4_scaling 2 \<and>
     AbsModelMatrix s3 2 \<noteq> mat_mul exact_math (AbsModelMatrix s3 1) (ModelMatrix s3 2)"
  by (simp add: UpdateAbsModelMatrix_def chain_scene_def upd_node_def SceneNode_init_def
      exact_math_def mat4_mul_def mat4_identity_def mat4_scaling_def ModelMatrix_def
      AbsModelMatrix_def Let_def)

subsection \<open>Queries on a node without drawables\<close>

text \<open>
  C2. A node without drawables should answer false to every per-drawable boolean
  query. The queries test \<^verbatim>\<open>renderables_[0]\<close> for null, not the vector for emptiness: on
  a node fresh from \<^verbatim>\<open>SceneNode(attrib)\<close>, whose drawable list is empty, each of them
  reads past the end of the vector instead of returning false.
\<close>

theorem queries_read_past_empty_renderables:
  fixes s :: "'m Scene" and M :: "'m MathLib" and a :: "32 word"
  defines "s' \<equiv> fst (alloc_node s (SceneNode_init M a))"
      and "p \<equiv> snd (alloc_node s (SceneNode_init M a))"
  shows "NumRenderables s' p = 0 \<and>
     TransparencyFrontFace s' p = Inl IndexOutOfRange \<and>
     TransparencyBackFace s' p = Inl IndexOutOfRange \<and>
     SSS s' p = Inl IndexOutOfRange \<and>
     Reflection s' p = Inl IndexOutOfRange \<and>
     SimpleForward s' p = Inl IndexOutOfRange \<and>
     VDM s' p = Inl IndexOutOfRange \<and>
     SelectMode s' p = Inl IndexOutOfRange"
  by (simp add: s'_def p_def alloc_node_def SceneNode_init_def NumRenderables_def
      first_renderable_flag_def TransparencyFrontFace_def TransparencyBackFace_def SSS_def
      Reflection_def SimpleForward_def VDM_def SelectMode_def)

subsection \<open>Removing an absent child\<close>

text \<open>
  C6. \<^verbatim>\<open>RemoveChild\<close> with a node that is not among the children changes nothing: the
  whole store, and with it every field of the node, is as before.
\<close>

theorem RemoveChild_absent_noop:
  "node \<notin> set (children (nodes s p)) \<Longrightarrow> RemoveChild s p node = s"
  by (simp add: RemoveChild_def find_index_absent)

theorem RemoveChild_absent_noop_witness:
  "5 \<notin> set (children (nodes chain_scene 0)) \<and> RemoveChild chain_scene 0 5 = chain_scene"
  using RemoveChild_absent_noop [of 5 chain_scene 0] by (simp add: chain_scene_def)

subsection \<open>Search by name\<close>

lemma le_fold_max: "(a::nat) \<le> fold max xs a"
  by (induction xs arbitrary: a) (auto intro: order_trans [OF max.cobounded2])

lemma mem_le_fold_max: "(x::nat) \<in> set xs \<Longrightarrow> x \<le> fold max xs a"
proof (induction xs arbitrary: a)
  case Nil
  then show ?case by simp
next
  case (Cons y ys)
  show ?case
  proof (cases "x = y")
    case True
    have "x \<le> max y a" using True by simp
    also have "\<dots> \<le> fold max ys (max y a)" by (rule le_fold_max)
    finally show ?thesis by simp
  next
    case False
    with Cons show ?thesis by simp
  qed
qed

lemma subtree_height_le: "t \<in> set ts \<Longrightarrow> height (Tr p ts) \<le> Suc k \<Longrightarrow> height t \<le> k"
  using mem_le_fold_max [of "height t" "map height ts" 0] by auto

lemma height_pos: "0 < height t"
  by (cases t) simp

lemma shape_subtree: "shape h (Tr p ts) \<Longrightarrow> t \<in> set ts \<Longrightarrow> shape h t"
  by (simp add: list_all_iff)

lemma find_append: "find P (xs @ ys) = (case find P xs of None \<Rightarrow> find P ys | Some x \<Rightarrow> Some x)"
  by (induction xs) auto

lemma first_hit_trees:
  assumes "\<And>t. t \<in> set ts \<Longrightarrow> f (tree_root t) = Some (find P (preorder t))"
  shows "first_hit f (map tree_root ts) = Some (find P (concat (map preorder ts)))"
  using assms
proof (induction ts)
  case Nil
  then show ?case by simp
next
  case (Cons t ts)
  then show ?case by (cases "find P (preorder t)") (simp_all add: find_append)
qed

lemma FindFirstNode_tree:
  "shape (nodes s) t \<Longrightarrow> height t \<le> fuel \<Longrightarrow>
   FindFirstNode fuel s (tree_root t) nm = Some (find (\<lambda>q. name (nodes s q) = nm) (preorder t))"
proof (induction t arbitrary: fuel)
  case (Tr p ts)
  from Tr.prems(2) obtain k where fuel: "fuel = Suc k" by (cases fuel) auto
  have kids: "children (nodes s p) = map tree_root ts" using Tr.prems(1) by simp
  have sub: "\<And>t. t \<in> set ts \<Longrightarrow>
      FindFirstNode k s (tree_root t) nm = Some (find (\<lambda>q. name (nodes s q) = nm) (preorder t))"
    using Tr.IH Tr.prems shape_subtree subtree_height_le fuel by blast
  show ?case
    using first_hit_trees [of ts "\<lambda>child. FindFirstNode k s child nm", OF sub]
    by (simp add: fuel kids)
qed

lemma for_each_o_trees:
  assumes "\<And>t acc. t \<in> set ts \<Longrightarrow> f (tree_root t) acc = Some (acc @ g t)"
  shows "for_each_o f (map tree_root ts) acc = Some (acc @ concat (map g ts))"
  using assms by (induction ts arbitrary: acc) simp_all

lemma FindAllNode_into_tree:
  "shape (nodes s) t \<Longrightarrow> height t \<le> fuel \<Longrightarrow>
   FindAllNode_into fuel s (tree_root t) nm acc =
     Some (acc @ filter (\<lambda>q. name (nodes s q) = nm) (preorder t))"
proof (induction t arbitrary: fuel acc)
  case (Tr p ts)
  from Tr.prems(2) obtain k where fuel: "fuel = Suc k" by (cases fuel) auto
  have kids: "children (nodes s p) = map tree_root ts" using Tr.prems(1) by simp
  have sub: "\<And>t acc. t \<in> set ts \<Longrightarrow>
      FindAllNode_into k s (tree_root t) nm acc =
        Some (acc @ filter (\<lambda>q. name (nodes s q) = nm) (preorder t))"
    using Tr.IH Tr.prems shape_subtree subtree_height_le fuel by blast
  have cat: "filter P (concat (map preorder ts)) = concat (map (\<lambda>t. filter P (preorder t)) ts)" for P
    by (induction ts) simp_all
  show ?case
    using for_each_o_trees [of ts "\<lambda>child acc'. FindAllNode_into k s child nm acc'"
        "\<lambda>t. filter (\<lambda>q. name (nodes s q) = nm) (preorder t)", OF sub]
    by (simp add: fuel kids cat)
qed

text \<open>
  C4. On a tree, and with a recursion bound that covers its height, \<^verbatim>\<open>FindFirstNode\<close>
  returns the first node of the pre-order enumeration (the node itself first, then the
  subtrees of its children from left to right) whose name equals the argument, or null
  if there is none; \<^verbatim>\<open>FindAllNode\<close> returns all of them in that order. The witness is
  the scene with the names R, B, A, A: the first match for A is node 2, the match met
  first in pre-order, and both matches are returned in pre-order.
\<close>

theorem FindNode_preorder:
  assumes "shape (nodes s) t" and "height t \<le> fuel"
  shows "FindFirstNode fuel s (tree_root t) nm = Some (find (\<lambda>q. name (nodes s q) = nm) (preorder t)) \<and>
         FindAllNode fuel s (tree_root t) nm = Some (filter (\<lambda>q. name (nodes s q) = nm) (preorder t))"
  using FindFirstNode_tree [OF assms] FindAllNode_into_tree [OF assms, of nm "[]"]
  by (simp add: FindAllNode_def)

theorem FindNode_preorder_witness:
  "shape (nodes named_scene) named_tree \<and> height named_tree \<le> 3 \<and>
   preorder named_tree = [0, 1, 2, 3] \<and>
   map (\<lambda>q. name (nodes named_scene q)) (preorder named_tree) = [''R'', ''B'', ''A'', ''A''] \<and>
   FindFirstNode 3 named_scene 0 ''A'' = Some (Some 2) \<and>
   FindAllNode 3 named_scene 0 ''A'' = Some [2, 3] \<and>
   FindFirstNode 3 named_scene 0 ''C'' = Some None"
proof -
  have sh: "shape (nodes named_scene) named_tree"
    by (simp add: named_scene_def named_tree_def SceneNode_named_def SceneNode_init_def)
  have h: "height named_tree \<le> 3"
    by (simp add: named_tree_def)
  have nm: "map (\<lambda>q. name (nodes named_scene q)) (preorder named_tree) = [''R'', ''B'', ''A'', ''A'']"
    by (simp add: named_scene_def named_tree_def SceneNode_named_def SceneNode_init_def)
  have po: "preorder named_tree = [0, 1, 2, 3]"
    by (simp add: named_tree_def)
  have nms: "name (nodes named_scene 0) = ''R''" "name (nodes named_scene 1) = ''B''"
     "name (nodes named_scene 2) = ''A''" "name (nodes named_scene 3) = ''A''"
    by (simp_all add: named_scene_def SceneNode_named_def SceneNode_init_def)
  show ?thesis
    using FindNode_preorder [OF sh h, of "''A''"] FindNode_preorder [OF sh h, of "''C''"] sh h nm
    by (simp add: po nms named_tree_def)
qed

subsection \<open>Loops\<close>

lemma for_each_o_map: "for_each_o f (map g xs) s = for_each_o (\<lambda>x. f (g x)) xs s"
  by (induction xs arbitrary: s) (simp_all split: option.splits)

lemma for_each_o_prefix:
  assumes "I [] s"
      and "\<And>x a pre. x \<in> set xs \<Longrightarrow> I pre a \<Longrightarrow> \<exists>b. f x a = Some b \<and> I (pre @ [x]) b"
  shows "\<exists>s'. for_each_o f xs s = Some s' \<and> I xs s'"
  using assms
proof (induction xs arbitrary: s I)
  case Nil
  then show ?case by simp
next
  case (Cons x xs)
  from Cons.prems(2) [of x "[]" s] Cons.prems(1)
  obtain b where b: "f x s = Some b" "I [x] b" by auto
  have "\<exists>s'. for_each_o f xs b = Some s' \<and> (\<lambda>pre. I (x # pre)) xs s'"
  proof (rule Cons.IH)
    show "I [x] b" by (rule b)
  next
    fix y a pre
    assume "y \<in> set xs" "I (x # pre) a"
    then show "\<exists>b. f y a = Some b \<and> I (x # pre @ [y]) b"
      using Cons.prems(2) [of y "x # pre" a] by simp
  qed
  then show ?case using b by simp
qed

lemma for_each_o_invariant:
  assumes "for_each_o f xs s = Some s'" and "I s"
      and "\<And>x a b. x \<in> set xs \<Longrightarrow> I a \<Longrightarrow> f x a = Some b \<Longrightarrow> I b"
  shows "I s'"
  using assms
proof (induction xs arbitrary: s)
  case Nil
  then show ?case by simp
next
  case (Cons x xs)
  from Cons.prems(1) obtain b where b: "f x s = Some b" "for_each_o f xs b = Some s'"
    by (auto split: option.splits)
  have "I b" using Cons.prems(3) [of x s b] Cons.prems(2) b by simp
  show ?case
  proof (rule Cons.IH [OF b(2) \<open>I b\<close>])
    fix y a c
    assume "y \<in> set xs" "I a" "f y a = Some c"
    then show "I c" using Cons.prems(3) [of y a c] by simp
  qed
qed

subsection \<open>Visibility\<close>

lemma Invisible_cleared: "(a AND NOT SOA_Invisible) AND SOA_Invisible = 0"
  by (simp add: and.assoc)

lemma Invisible_set: "(a OR SOA_Invisible) AND SOA_Invisible = SOA_Invisible"
  by (simp add: and.commute)

lemma Invisible_nonzero: "SOA_Invisible \<noteq> 0"
  by (simp add: SOA_Invisible_def)

lemma Invisible_other_bits_and: "(a AND NOT SOA_Invisible) AND NOT SOA_Invisible = a AND NOT SOA_Invisible"
  by (simp add: and.assoc)

lemma Invisible_other_bits_or: "(a OR SOA_Invisible) AND NOT SOA_Invisible = a AND NOT SOA_Invisible"
  by (simp add: bit.conj_disj_distrib2)

lemma vis_frame_refl: "vis_frame vis s s"
  by (simp add: vis_frame_def)

lemma vis_frame_trans:
  assumes ab: "vis_frame vis a b" and bc: "vis_frame vis b c"
  shows "vis_frame vis a c"
proof -
  have "nodes c q = (nodes a q)\<lparr> attrib := attrib (nodes c q) \<rparr> \<and>
        attrib (nodes c q) AND NOT SOA_Invisible = attrib (nodes a q) AND NOT SOA_Invisible \<and>
        (attrib (nodes c q) = attrib (nodes a q) \<or> Visible c q = vis)" for q
  proof -
    from ab have b1: "nodes b q = (nodes a q)\<lparr> attrib := attrib (nodes b q) \<rparr>"
      and b2: "attrib (nodes b q) AND NOT SOA_Invisible = attrib (nodes a q) AND NOT SOA_Invisible"
      and b3: "attrib (nodes b q) = attrib (nodes a q) \<or> Visible b q = vis"
      by (simp_all add: vis_frame_def)
    from bc have c1: "nodes c q = (nodes b q)\<lparr> attrib := attrib (nodes c q) \<rparr>"
      and c2: "attrib (nodes c q) AND NOT SOA_Invisible = attrib (nodes b q) AND NOT SOA_Invisible"
      and c3: "attrib (nodes c q) = attrib (nodes b q) \<or> Visible c q = vis"
      by (simp_all add: vis_frame_def)
    have "nodes c q = ((nodes a q)\<lparr> attrib := attrib (nodes b q) \<rparr>)\<lparr> attrib := attrib (nodes c q) \<rparr>"
      using c1 b1 by simp
    then have n: "nodes c q = (nodes a q)\<lparr> attrib := attrib (nodes c q) \<rparr>" by simp
    have v: "attrib (nodes c q) = attrib (nodes a q) \<or> Visible c q = vis"
    proof (cases "Visible c q = vis")
      case True then show ?thesis by simp
    next
      case False
      with c3 have e: "attrib (nodes c q) = attrib (nodes b q)" by simp
      then have "Visible b q = Visible c q" by (simp add: Visible_def)
      with False b3 e show ?thesis by simp
    qed
    show ?thesis using n c2 b2 v by simp
  qed
  moreover have "rends c = rends a" "next_node c = next_node a" "scene_nodes c = scene_nodes a"
    using ab bc by (simp_all add: vis_frame_def)
  ultimately show ?thesis unfolding vis_frame_def by blast
qed

lemma vis_frame_step:
  "vis_frame vis s (upd_node s p (\<lambda>n. n\<lparr> attrib :=
                 (if vis then attrib n AND NOT SOA_Invisible else attrib n OR SOA_Invisible) \<rparr>))"
proof (cases vis)
  case True
  then show ?thesis
    by (simp add: vis_frame_def upd_node_def Visible_def Invisible_cleared Invisible_other_bits_and)
next
  case False
  then show ?thesis
    using Invisible_nonzero
    by (simp add: vis_frame_def upd_node_def Visible_def Invisible_set Invisible_other_bits_or)
qed


lemma shape_children_cong:
  "(\<And>q. children (h' q) = children (h q)) \<Longrightarrow> shape h' t = shape h t"
  by (induction t) (simp add: list_all_iff)

lemma vis_frame_children: "vis_frame vis s s' \<Longrightarrow> children (nodes s' q) = children (nodes s q)"
proof -
  assume "vis_frame vis s s'"
  then have "nodes s' q = (nodes s q)\<lparr> attrib := attrib (nodes s' q) \<rparr>"
    by (simp add: vis_frame_def)
  from arg_cong [OF this, of children] show ?thesis by simp
qed

lemma vis_frame_shape: "vis_frame vis s s' \<Longrightarrow> shape (nodes s') t = shape (nodes s) t"
  by (rule shape_children_cong) (rule vis_frame_children)

lemma vis_frame_keeps: "vis_frame vis s s' \<Longrightarrow> Visible s q = vis \<Longrightarrow> Visible s' q = vis"
  unfolding vis_frame_def Visible_def by metis

lemma Visible_set_tree:
  "shape (nodes s) t \<Longrightarrow> height t \<le> fuel \<Longrightarrow>
   \<exists>s'. Visible_set fuel s (tree_root t) vis = Some s' \<and> vis_frame vis s s' \<and>
        (\<forall>q\<in>set (preorder t). Visible s' q = vis) \<and>
        (\<forall>q. q \<notin> set (preorder t) \<longrightarrow> nodes s' q = nodes s q)"
proof (induction t arbitrary: s fuel)
  case (Tr p ts)
  from Tr.prems(2) obtain k where fuel: "fuel = Suc k" by (cases fuel) auto
  define s1 where "s1 = upd_node s p (\<lambda>n. n\<lparr> attrib :=
                 (if vis then attrib n AND NOT SOA_Invisible else attrib n OR SOA_Invisible) \<rparr>)"
  have f1: "vis_frame vis s s1" unfolding s1_def by (rule vis_frame_step)
  have v1: "Visible s1 p = vis"
    using Invisible_nonzero
    by (cases vis) (simp_all add: s1_def upd_node_def Visible_def Invisible_cleared Invisible_set)
  have o1: "\<And>q. q \<noteq> p \<Longrightarrow> nodes s1 q = nodes s q" by (simp add: s1_def upd_node_def)
  have kids: "children (nodes s1 p) = map tree_root ts"
    using Tr.prems(1) vis_frame_children [OF f1, of p] by simp
  define I where "I pre a \<longleftrightarrow> vis_frame vis s1 a \<and>
      (\<forall>t'\<in>set pre. \<forall>q\<in>set (preorder t'). Visible a q = vis) \<and>
      (\<forall>q. q \<notin> (\<Union>t'\<in>set pre. set (preorder t')) \<longrightarrow> nodes a q = nodes s1 q)" for pre a
  have "\<exists>s'. for_each_o (\<lambda>t' a. Visible_set k a (tree_root t') vis) ts s1 = Some s' \<and> I ts s'"
  proof (rule for_each_o_prefix)
    show "I [] s1" by (simp add: I_def vis_frame_refl)
  next
    fix t' a pre
    assume t': "t' \<in> set ts" and Ia: "I pre a"
    from Ia have fa: "vis_frame vis s1 a" by (simp add: I_def)
    have "shape (nodes s) t'" using Tr.prems(1) t' by (simp add: list_all_iff)
    then have sh: "shape (nodes a) t'" using vis_frame_shape [OF f1] vis_frame_shape [OF fa] by simp
    have h: "height t' \<le> k" using Tr.prems(2) t' fuel mem_le_fold_max [of "height t'" "map height ts" 0] by auto
    from Tr.IH [OF t' sh h] obtain b where
      b: "Visible_set k a (tree_root t') vis = Some b" "vis_frame vis a b"
         "\<forall>q\<in>set (preorder t'). Visible b q = vis"
         "\<forall>q. q \<notin> set (preorder t') \<longrightarrow> nodes b q = nodes a q"
      by blast
    have "I (pre @ [t']) b"
      unfolding I_def
    proof (intro conjI)
      show "vis_frame vis s1 b" using fa b(2) by (rule vis_frame_trans)
      show "\<forall>t''\<in>set (pre @ [t']). \<forall>q\<in>set (preorder t''). Visible b q = vis"
        using Ia b(3) vis_frame_keeps [OF b(2)] by (auto simp: I_def)
      show "\<forall>q. q \<notin> (\<Union>t''\<in>set (pre @ [t']). set (preorder t'')) \<longrightarrow> nodes b q = nodes s1 q"
        using Ia b(4) by (auto simp: I_def)
    qed
    with b(1) show "\<exists>b. Visible_set k a (tree_root t') vis = Some b \<and> I (pre @ [t']) b" by blast
  qed
  then obtain s' where s': "for_each_o (\<lambda>t' a. Visible_set k a (tree_root t') vis) ts s1 = Some s'"
    and Is': "I ts s'" by blast
  have run: "Visible_set fuel s (tree_root (Tr p ts)) vis = Some s'"
    using s' kids by (simp add: fuel s1_def [symmetric] Let_def for_each_o_map)
  from Is' have fs: "vis_frame vis s1 s'" by (simp add: I_def)
  have "vis_frame vis s s'" using f1 fs by (rule vis_frame_trans)
  moreover have "\<forall>q\<in>set (preorder (Tr p ts)). Visible s' q = vis"
    using Is' v1 vis_frame_keeps [OF fs] by (auto simp: I_def)
  moreover have "\<forall>q. q \<notin> set (preorder (Tr p ts)) \<longrightarrow> nodes s' q = nodes s q"
    using Is' o1 by (auto simp: I_def)
  ultimately show ?case using run by blast
qed


text \<open>
  C10. On a tree, and with a recursion bound that covers its height, \<^verbatim>\<open>Visible(vis)\<close>
  returns, and afterwards \<^verbatim>\<open>Visible()\<close> answers \<open>vis\<close> for every node of the subtree. In
  every node of the store all attribute bits other than the invisible bit are as before,
  no field other than the attribute mask has changed, and the nodes outside the subtree
  and the drawables are untouched.
\<close>

theorem Visible_set_subtree:
  assumes "shape (nodes s) t" and "height t \<le> fuel"
  shows "\<exists>s'. Visible_set fuel s (tree_root t) vis = Some s' \<and>
     (\<forall>q\<in>set (preorder t). Visible s' q = vis) \<and>
     (\<forall>q. attrib (nodes s' q) AND NOT SOA_Invisible = attrib (nodes s q) AND NOT SOA_Invisible) \<and>
     (\<forall>q. nodes s' q = (nodes s q)\<lparr> attrib := attrib (nodes s' q) \<rparr>) \<and>
     (\<forall>q. q \<notin> set (preorder t) \<longrightarrow> nodes s' q = nodes s q) \<and>
     rends s' = rends s"
proof -
  from Visible_set_tree [OF assms, of vis] obtain s' where
    s': "Visible_set fuel s (tree_root t) vis = Some s'" "vis_frame vis s s'"
        "\<forall>q\<in>set (preorder t). Visible s' q = vis"
        "\<forall>q. q \<notin> set (preorder t) \<longrightarrow> nodes s' q = nodes s q"
    by blast
  from s'(2) have
    "\<forall>q. attrib (nodes s' q) AND NOT SOA_Invisible = attrib (nodes s q) AND NOT SOA_Invisible"
    "\<forall>q. nodes s' q = (nodes s q)\<lparr> attrib := attrib (nodes s' q) \<rparr>"
    "rends s' = rends s"
    by (simp_all add: vis_frame_def)
  with s'(1,3,4) show ?thesis by blast
qed

theorem Visible_set_subtree_witness:
  "shape (nodes named_scene) named_tree \<and> height named_tree \<le> 3 \<and>
   Visible named_scene 0 \<and> Visible named_scene 1 \<and> Visible named_scene 2 \<and> Visible named_scene 3 \<and>
   (\<exists>s'. Visible_set 3 named_scene 0 False = Some s' \<and>
      \<not> Visible s' 0 \<and> \<not> Visible s' 1 \<and> \<not> Visible s' 2 \<and> \<not> Visible s' 3 \<and>
      attrib (nodes s' 2) AND NOT SOA_Invisible = 0 \<and> nodes s' 4 = nodes named_scene 4)"
proof -
  have sh: "shape (nodes named_scene) named_tree"
    by (simp add: named_scene_def named_tree_def SceneNode_named_def SceneNode_init_def)
  have h: "height named_tree \<le> 3"
    by (simp add: named_tree_def)
  have at: "attrib (nodes named_scene q) = 0" for q
    by (simp add: named_scene_def SceneNode_named_def SceneNode_init_def)
  have vis0: "Visible named_scene q" for q
    by (simp add: Visible_def at)
  from Visible_set_subtree [OF sh h, of False] obtain s' where
    s': "Visible_set 3 named_scene (tree_root named_tree) False = Some s'"
        "\<forall>q\<in>set (preorder named_tree). Visible s' q = False"
        "\<forall>q. attrib (nodes s' q) AND NOT SOA_Invisible = attrib (nodes named_scene q) AND NOT SOA_Invisible"
        "\<forall>q. q \<notin> set (preorder named_tree) \<longrightarrow> nodes s' q = nodes named_scene q"
    by blast
  have r: "tree_root named_tree = 0" and po: "preorder named_tree = [0, 1, 2, 3]"
    by (simp_all add: named_tree_def)
  have nv: "\<not> Visible s' 0" "\<not> Visible s' 1" "\<not> Visible s' 2" "\<not> Visible s' 3"
    using s'(2) by (simp_all add: po)
  have a2: "attrib (nodes s' 2) AND NOT SOA_Invisible = 0" using s'(3) by (simp add: at)
  have o4: "nodes s' 4 = nodes named_scene 4" using s'(4) by (simp add: po)
  show ?thesis using sh h vis0 s'(1) nv a2 o4 by (simp add: r)
qed

subsection \<open>Recomputing the local bound\<close>

lemma for_each_map: "for_each f (map g xs) s = for_each (\<lambda>x. f (g x)) xs s"
proof (induction xs arbitrary: s)
  case Nil
  then show ?case by simp
next
  case (Cons x xs)
  then show ?case by (cases "f (g x) s" rule: bind_run.cases [of "(_, for_each f (map g xs))"]) auto
qed

lemma bind_run_Inr:
  "bind_run m f = Some (Inr y) \<longleftrightarrow> (\<exists>x. m = Some (Inr x) \<and> f x = Some (Inr y))"
  by (cases "(m, f)" rule: bind_run.cases) auto

lemma for_each_invariant:
  assumes "for_each f xs s = Some (Inr s')" and "I s"
      and "\<And>x a b. x \<in> set xs \<Longrightarrow> I a \<Longrightarrow> f x a = Some (Inr b) \<Longrightarrow> I b"
  shows "I s'"
  using assms
proof (induction xs arbitrary: s)
  case Nil
  then show ?case by simp
next
  case (Cons x xs)
  from Cons.prems(1) obtain b where b: "f x s = Some (Inr b)" "for_each f xs b = Some (Inr s')"
    by (auto simp: bind_run_Inr)
  have "I b" using Cons.prems(3) [of x s b] Cons.prems(2) b by simp
  show ?case
  proof (rule Cons.IH [OF b(2) \<open>I b\<close>])
    fix y a c
    assume "y \<in> set xs" "I a" "f y a = Some (Inr c)"
    then show "I c" using Cons.prems(3) [of y a c] by simp
  qed
qed

lemma for_each_prefix:
  assumes "I [] s"
      and "\<And>pre x post a. xs = pre @ x # post \<Longrightarrow> I pre a \<Longrightarrow>
             \<exists>b. f x a = Some (Inr b) \<and> I (pre @ [x]) b"
  shows "\<exists>s'. for_each f xs s = Some (Inr s') \<and> I xs s'"
  using assms
proof (induction xs arbitrary: s I)
  case Nil
  then show ?case by simp
next
  case (Cons x xs)
  from Cons.prems(2) [of "[]" x xs s] Cons.prems(1)
  obtain b where b: "f x s = Some (Inr b)" "I [x] b" by auto
  have "\<exists>s'. for_each f xs b = Some (Inr s') \<and> (\<lambda>pre. I (x # pre)) xs s'"
  proof (rule Cons.IH)
    show "I [x] b" by (rule b)
  next
    fix pre y post a
    assume "xs = pre @ y # post" "I (x # pre) a"
    then show "\<exists>b. f y a = Some (Inr b) \<and> I (x # pre @ [y]) b"
      using Cons.prems(2) [of "x # pre" y post a] by simp
  qed
  then show ?case using b by simp
qed

lemma bound_frame_refl: "bound_frame s s"
  by (simp add: bound_frame_def)

lemma bound_frame_trans:
  assumes ab: "bound_frame a b" and bc: "bound_frame b c"
  shows "bound_frame a c"
proof -
  have "nodes c q = (nodes a q)\<lparr> pos_aabb_os := pos_aabb_os (nodes c q),
                                  pos_aabb_dirty := pos_aabb_dirty (nodes c q) \<rparr> \<and>
        (pos_aabb_os (nodes c q) = None \<longleftrightarrow> pos_aabb_os (nodes a q) = None) \<and>
        (pos_aabb_dirty (nodes c q) \<longrightarrow> pos_aabb_dirty (nodes a q))" for q
  proof -
    from ab have b1: "nodes b q = (nodes a q)\<lparr> pos_aabb_os := pos_aabb_os (nodes b q),
                                  pos_aabb_dirty := pos_aabb_dirty (nodes b q) \<rparr>"
      and b2: "pos_aabb_os (nodes b q) = None \<longleftrightarrow> pos_aabb_os (nodes a q) = None"
      and b3: "pos_aabb_dirty (nodes b q) \<longrightarrow> pos_aabb_dirty (nodes a q)"
      by (simp_all add: bound_frame_def)
    from bc have c1: "nodes c q = (nodes b q)\<lparr> pos_aabb_os := pos_aabb_os (nodes c q),
                                  pos_aabb_dirty := pos_aabb_dirty (nodes c q) \<rparr>"
      and c2: "pos_aabb_os (nodes c q) = None \<longleftrightarrow> pos_aabb_os (nodes b q) = None"
      and c3: "pos_aabb_dirty (nodes c q) \<longrightarrow> pos_aabb_dirty (nodes b q)"
      by (simp_all add: bound_frame_def)
    have "nodes c q = ((nodes a q)\<lparr> pos_aabb_os := pos_aabb_os (nodes b q),
                                  pos_aabb_dirty := pos_aabb_dirty (nodes b q) \<rparr>)
             \<lparr> pos_aabb_os := pos_aabb_os (nodes c q), pos_aabb_dirty := pos_aabb_dirty (nodes c q) \<rparr>"
      using c1 b1 by simp
    then have "nodes c q = (nodes a q)\<lparr> pos_aabb_os := pos_aabb_os (nodes c q),
                                  pos_aabb_dirty := pos_aabb_dirty (nodes c q) \<rparr>" by simp
    then show ?thesis using b2 b3 c2 c3 by simp
  qed
  moreover have "rends c = rends a" "next_node c = next_node a" "scene_nodes c = scene_nodes a"
    using ab bc by (simp_all add: bound_frame_def)
  ultimately show ?thesis unfolding bound_frame_def by blast
qed

lemma bound_frame_set_os:
  "pos_aabb_os (nodes s p) \<noteq> None \<Longrightarrow>
   bound_frame s (upd_node s p (\<lambda>n. n\<lparr> pos_aabb_os := Some b \<rparr>))"
  by (simp add: bound_frame_def upd_node_def)

lemma bound_frame_clear_dirty:
  "bound_frame s (upd_node s p (\<lambda>n. n\<lparr> pos_aabb_dirty := False \<rparr>))"
  by (simp add: bound_frame_def upd_node_def)

lemma unite_child_frame:
  assumes IH: "\<And>a c b. upd a c = Some (Inr b) \<Longrightarrow> bound_frame a b"
      and run: "unite_child upd p child s = Some (Inr s')"
  shows "bound_frame s s'"
proof (cases "pos_aabb_os (nodes s child) \<noteq> None")
  case False
  with run show ?thesis by (simp add: unite_child_def bound_frame_refl)
next
  case True
  with run obtain s1 where s1: "upd s child = Some (Inr s1)"
    and rest: "(case pos_aabb_os (nodes s1 p) of
                      None \<Rightarrow> Some (Inl NullPointer)
                    | Some b \<Rightarrow>
                        (case pos_aabb_os (nodes s1 child) of
                           None \<Rightarrow> Some (Inl NullPointer)
                         | Some cb \<Rightarrow>
                             Some (Inr (upd_node s1 p (\<lambda>n. n\<lparr> pos_aabb_os := Some (aabb_union b cb) \<rparr>)))))
               = Some (Inr s')"
    by (auto simp: unite_child_def bind_run_Inr)
  from rest obtain b cb where "pos_aabb_os (nodes s1 p) = Some b"
    and s': "s' = upd_node s1 p (\<lambda>n. n\<lparr> pos_aabb_os := Some (aabb_union b cb) \<rparr>)"
    by (auto split: option.splits)
  then have "bound_frame s1 s'" using bound_frame_set_os [of s1 p] by simp
  with IH [OF s1] show ?thesis by (rule bound_frame_trans)
qed

lemma UpdatePosBound_frame:
  "UpdatePosBound fuel s p = Some (Inr s') \<Longrightarrow> bound_frame s s'"
proof (induction fuel arbitrary: s p s')
  case 0
  then show ?case by simp
next
  case (Suc k)
  show ?case
  proof (cases "pos_aabb_dirty (nodes s p)")
    case False
    with Suc.prems show ?thesis by (simp add: bound_frame_refl)
  next
    case dirty: True
    show ?thesis
    proof (cases "pos_aabb_os (nodes s p) \<noteq> None")
      case False
      with dirty Suc.prems have "s' = upd_node s p (\<lambda>n. n\<lparr> pos_aabb_dirty := False \<rparr>)" by auto
      then show ?thesis by (simp add: bound_frame_clear_dirty)
    next
      case True
      with dirty Suc.prems obtain b s2 where
        b: "drawables_PosBound (rends s) (renderables (nodes s p)) = Inr b"
        and loop: "for_each (unite_child (UpdatePosBound k) p) (children (nodes s p))
                     (upd_node s p (\<lambda>n. n\<lparr> pos_aabb_os := Some b \<rparr>)) = Some (Inr s2)"
        and s': "s' = upd_node s2 p (\<lambda>n. n\<lparr> pos_aabb_dirty := False \<rparr>)"
        by (auto simp: bind_run_Inr split: sum.splits)
      have "bound_frame s s2"
      proof (rule for_each_invariant [OF loop])
        show "bound_frame s (upd_node s p (\<lambda>n. n\<lparr> pos_aabb_os := Some b \<rparr>))"
          using True by (rule bound_frame_set_os)
      next
        fix x a c
        assume "bound_frame s a" "unite_child (UpdatePosBound k) p x a = Some (Inr c)"
        then show "bound_frame s c"
          using unite_child_frame [of "UpdatePosBound k" p x a c] Suc.IH bound_frame_trans by blast
      qed
      then show ?thesis unfolding s' using bound_frame_clear_dirty bound_frame_trans by blast
    qed
  qed
qed


lemma bound_frame_fields:
  assumes "bound_frame s s'"
  shows "children (nodes s' q) = children (nodes s q)"
    and "renderables (nodes s' q) = renderables (nodes s q)"
    and "renderables_hw_res_ready (nodes s' q) = renderables_hw_res_ready (nodes s q)"
    and "attrib (nodes s' q) = attrib (nodes s q)"
    and "pos_aabb_ws (nodes s' q) = pos_aabb_ws (nodes s q)"
    and "parent (nodes s' q) = parent (nodes s q)"
    and "model (nodes s' q) = model (nodes s q)"
    and "abs_model (nodes s' q) = abs_model (nodes s q)"
    and "main_thread_update_func (nodes s' q) = main_thread_update_func (nodes s q)"
proof -
  from assms have e: "nodes s' q = (nodes s q)\<lparr> pos_aabb_os := pos_aabb_os (nodes s' q),
                                     pos_aabb_dirty := pos_aabb_dirty (nodes s' q) \<rparr>"
    by (simp add: bound_frame_def)
  show "children (nodes s' q) = children (nodes s q)" using arg_cong [OF e, of children] by simp
  show "renderables (nodes s' q) = renderables (nodes s q)" using arg_cong [OF e, of renderables] by simp
  show "renderables_hw_res_ready (nodes s' q) = renderables_hw_res_ready (nodes s q)"
    using arg_cong [OF e, of renderables_hw_res_ready] by simp
  show "attrib (nodes s' q) = attrib (nodes s q)" using arg_cong [OF e, of attrib] by simp
  show "pos_aabb_ws (nodes s' q) = pos_aabb_ws (nodes s q)" using arg_cong [OF e, of pos_aabb_ws] by simp
  show "parent (nodes s' q) = parent (nodes s q)" using arg_cong [OF e, of parent] by simp
  show "model (nodes s' q) = model (nodes s q)" using arg_cong [OF e, of model] by simp
  show "abs_model (nodes s' q) = abs_model (nodes s q)" using arg_cong [OF e, of abs_model] by simp
  show "main_thread_update_func (nodes s' q) = main_thread_update_func (nodes s q)"
    using arg_cong [OF e, of main_thread_update_func] by simp
qed

lemma bound_frame_presence:
  "bound_frame s s' \<Longrightarrow> pos_aabb_os (nodes s' q) = None \<longleftrightarrow> pos_aabb_os (nodes s q) = None"
  by (simp add: bound_frame_def)

lemma bound_frame_shape: "bound_frame s s' \<Longrightarrow> shape (nodes s') t = shape (nodes s) t"
  by (rule shape_children_cong) (rule bound_frame_fields)

lemma tree_root_in_preorder: "tree_root t \<in> set (preorder t)"
  by (cases t) simp

lemma bound_ready_local:
  "(\<And>q. q \<in> set (preorder t) \<Longrightarrow> nodes a q = nodes s q) \<Longrightarrow> bound_ready a t = bound_ready s t"
proof (induction t)
  case (Tr p ts)
  have p: "nodes a p = nodes s p" using Tr.prems by simp
  have sub: "bound_ready a t = bound_ready s t" if "t \<in> set ts" for t
    using Tr.IH [OF that] Tr.prems that by auto
  have roots: "nodes a (tree_root t) = nodes s (tree_root t)" if "t \<in> set ts" for t
    using Tr.prems [of "tree_root t"] that tree_root_in_preorder [of t] by auto
  have "list_all (\<lambda>t. pos_aabb_os (nodes a (tree_root t)) = None \<or> bound_ready a t) ts =
        list_all (\<lambda>t. pos_aabb_os (nodes s (tree_root t)) = None \<or> bound_ready s t) ts"
    using sub roots by (simp add: list_all_iff)
  then show ?case by (auto simp: p)
qed

lemma drawables_PosBound_ok:
  "rs \<noteq> [] \<Longrightarrow> list_all (\<lambda>r. r \<noteq> None) rs \<Longrightarrow> \<exists>b. drawables_PosBound R rs = Inr b"
proof -
  have u: "list_all (\<lambda>r. r \<noteq> None) xs \<Longrightarrow> \<exists>b. union_PosBounds R b0 xs = Inr b" for xs b0
    by (induction R b0 xs rule: union_PosBounds.induct) simp_all
  assume "rs \<noteq> []" "list_all (\<lambda>r. r \<noteq> None) rs"
  then show ?thesis using u by (cases rs) auto
qed

lemma map_filter_map: "List.map_filter f (map g xs) = List.map_filter (\<lambda>x. f (g x)) xs"
  by (induction xs) (simp_all add: List.map_filter_simps split: option.splits)

lemma map_filter_append: "List.map_filter f (xs @ ys) = List.map_filter f xs @ List.map_filter f ys"
  by (simp add: List.map_filter_def)

lemma map_filter_cong_set:
  "(\<And>x. x \<in> set xs \<Longrightarrow> f x = g x) \<Longrightarrow> List.map_filter f xs = List.map_filter g xs"
  by (induction xs) (auto simp: List.map_filter_simps split: option.splits)


lemma UpdatePosBound_tree:
  "shape (nodes s) t \<Longrightarrow> distinct (preorder t) \<Longrightarrow> bound_ready s t \<Longrightarrow> height t \<le> fuel \<Longrightarrow>
   \<exists>s'. UpdatePosBound fuel s (tree_root t) = Some (Inr s') \<and> bound_frame s s' \<and>
        (\<forall>q. q \<notin> set (preorder t) \<longrightarrow> nodes s' q = nodes s q) \<and>
        \<not> pos_aabb_dirty (nodes s' (tree_root t)) \<and>
        (pos_aabb_dirty (nodes s (tree_root t)) \<longrightarrow> pos_aabb_os (nodes s (tree_root t)) \<noteq> None \<longrightarrow>
           (\<exists>b. drawables_PosBound (rends s) (renderables (nodes s (tree_root t))) = Inr b \<and>
                pos_aabb_os (nodes s' (tree_root t)) =
                  Some (foldl aabb_union b (tracked_child_bounds s' (tree_root t)))))"
proof (induction t arbitrary: s fuel)
  case (Tr p ts)
  from Tr.prems(4) obtain k where fuel: "fuel = Suc k" by (cases fuel) auto
  have kids: "children (nodes s p) = map tree_root ts" using Tr.prems(1) by simp
  have pnot: "p \<notin> set (concat (map preorder ts))" and dts: "distinct (concat (map preorder ts))"
    using Tr.prems(2) by simp_all
  show ?case
  proof (cases "pos_aabb_dirty (nodes s p)")
    case False
    then show ?thesis by (simp add: fuel bound_frame_refl)
  next
    case dirty: True
    show ?thesis
    proof (cases "pos_aabb_os (nodes s p) \<noteq> None")
      case False
      define s' where "s' = upd_node s p (\<lambda>n. n\<lparr> pos_aabb_dirty := False \<rparr>)"
      have "UpdatePosBound fuel s (tree_root (Tr p ts)) = Some (Inr s')"
        using False dirty by (simp add: fuel s'_def)
      moreover have "bound_frame s s'" unfolding s'_def by (rule bound_frame_clear_dirty)
      moreover have "\<forall>q. q \<notin> set (preorder (Tr p ts)) \<longrightarrow> nodes s' q = nodes s q"
        by (simp add: s'_def upd_node_def)
      moreover have "\<not> pos_aabb_dirty (nodes s' (tree_root (Tr p ts)))"
        by (simp add: s'_def upd_node_def)
      ultimately show ?thesis using False by auto
    next
      case tracked: True
      from Tr.prems(3) dirty tracked have
        rs: "renderables (nodes s p) \<noteq> []" "list_all (\<lambda>r. r \<noteq> None) (renderables (nodes s p))"
        and rdy: "\<And>t. t \<in> set ts \<Longrightarrow> pos_aabb_os (nodes s (tree_root t)) = None \<or> bound_ready s t"
        by (simp_all add: list_all_iff)
      from drawables_PosBound_ok [OF rs] obtain b where
        b: "drawables_PosBound (rends s) (renderables (nodes s p)) = Inr b" by blast
      define s1 where "s1 = upd_node s p (\<lambda>n. n\<lparr> pos_aabb_os := Some b \<rparr>)"
      have f1: "bound_frame s s1" unfolding s1_def using tracked by (rule bound_frame_set_os)
      have o1: "\<And>q. q \<noteq> p \<Longrightarrow> nodes s1 q = nodes s q" by (simp add: s1_def upd_node_def)
      define I where "I pre a \<longleftrightarrow> bound_frame s1 a \<and>
          (\<forall>q. q \<noteq> p \<longrightarrow> q \<notin> (\<Union>t'\<in>set pre. set (preorder t')) \<longrightarrow> nodes a q = nodes s q) \<and>
          pos_aabb_os (nodes a p) =
            Some (foldl aabb_union b (List.map_filter (\<lambda>t'. pos_aabb_os (nodes a (tree_root t'))) pre))"
        for pre a
      have "\<exists>s2. for_each (\<lambda>t'. unite_child (UpdatePosBound k) p (tree_root t')) ts s1 = Some (Inr s2)
                 \<and> I ts s2"
      proof (rule for_each_prefix)
        show "I [] s1" using o1 by (simp add: I_def bound_frame_refl List.map_filter_simps s1_def upd_node_def)
      next
        fix pre x post a
        assume split: "ts = pre @ x # post" and Ia: "I pre a"
        from Ia have fa: "bound_frame s1 a"
          and ua: "\<And>q. q \<noteq> p \<Longrightarrow> q \<notin> (\<Union>t'\<in>set pre. set (preorder t')) \<Longrightarrow> nodes a q = nodes s q"
          and oa: "pos_aabb_os (nodes a p) =
            Some (foldl aabb_union b (List.map_filter (\<lambda>t'. pos_aabb_os (nodes a (tree_root t'))) pre))"
          by (simp_all add: I_def)
        have xin: "x \<in> set ts" using split by simp
        have dx: "distinct (preorder x)" using dts split by simp
        have disj: "\<And>q t'. q \<in> set (preorder x) \<Longrightarrow> t' \<in> set pre \<Longrightarrow> q \<notin> set (preorder t')"
          using dts split by auto
        have px: "p \<notin> set (preorder x)" using pnot xin by auto
        have ppre: "\<And>t'. t' \<in> set pre \<Longrightarrow> tree_root t' \<noteq> p"
          using pnot split tree_root_in_preorder by fastforce
        have same_x: "nodes a q = nodes s q" if "q \<in> set (preorder x)" for q
        proof (rule ua)
          show "q \<noteq> p" using that px by auto
          show "q \<notin> (\<Union>t'\<in>set pre. set (preorder t'))" using disj [OF that] by auto
        qed
        define c where "c = tree_root x"
        have cx: "c \<in> set (preorder x)" unfolding c_def by (rule tree_root_in_preorder)
        have cp: "c \<noteq> p" using cx px by auto
        have cpre: "\<And>t'. t' \<in> set pre \<Longrightarrow> tree_root t' \<notin> set (preorder x)"
          using disj tree_root_in_preorder by blast
        show "\<exists>b'. unite_child (UpdatePosBound k) p (tree_root x) a = Some (Inr b') \<and> I (pre @ [x]) b'"
        proof (cases "pos_aabb_os (nodes a c) = None")
          case True
          then have "unite_child (UpdatePosBound k) p (tree_root x) a = Some (Inr a)"
            by (simp add: unite_child_def c_def)
          moreover have "I (pre @ [x]) a"
            using fa ua oa True
            by (simp add: I_def map_filter_append List.map_filter_simps c_def)
          ultimately show ?thesis by blast
        next
          case False
          then have "pos_aabb_os (nodes s c) \<noteq> None" using same_x [OF cx] by simp
          with rdy [OF xin] have "bound_ready s x" by (auto simp: c_def)
          then have ra: "bound_ready a x" using bound_ready_local [of x a s] same_x by simp
          have "shape (nodes s) x" using Tr.prems(1) xin by (simp add: list_all_iff)
          then have sa: "shape (nodes a) x"
            using bound_frame_shape [OF f1] bound_frame_shape [OF fa] by simp
          have hx: "height x \<le> k"
            using Tr.prems(4) xin fuel mem_le_fold_max [of "height x" "map height ts" 0] by auto
          from Tr.IH [OF xin sa dx ra hx] obtain a' where
            run: "UpdatePosBound k a c = Some (Inr a')" and fa': "bound_frame a a'"
            and foot: "\<And>q. q \<notin> set (preorder x) \<Longrightarrow> nodes a' q = nodes a q"
            unfolding c_def by blast
          have pa': "nodes a' p = nodes a p" using foot px by simp
          obtain acc where acc: "pos_aabb_os (nodes a' p) = Some acc"
            "acc = foldl aabb_union b (List.map_filter (\<lambda>t'. pos_aabb_os (nodes a (tree_root t'))) pre)"
            using oa pa' by simp
          from False bound_frame_presence [OF fa', of c] obtain cb where
            cb: "pos_aabb_os (nodes a' c) = Some cb" by auto
          define b' where "b' = upd_node a' p (\<lambda>n. n\<lparr> pos_aabb_os := Some (aabb_union acc cb) \<rparr>)"
          have step: "unite_child (UpdatePosBound k) p (tree_root x) a = Some (Inr b')"
            using False run acc(1) cb by (simp add: unite_child_def c_def [symmetric] b'_def)
          have fb: "bound_frame a' b'"
            unfolding b'_def using acc(1) bound_frame_set_os [of a' p] by simp
          have nb: "\<And>q. q \<noteq> p \<Longrightarrow> nodes b' q = nodes a' q" by (simp add: b'_def upd_node_def)
          have i1: "bound_frame s1 b'" using fa fa' fb bound_frame_trans by blast
          have i2: "\<forall>q. q \<noteq> p \<longrightarrow> q \<notin> (\<Union>t'\<in>set (pre @ [x]). set (preorder t')) \<longrightarrow> nodes b' q = nodes s q"
            using nb foot ua by auto
          have old: "List.map_filter (\<lambda>t'. pos_aabb_os (nodes b' (tree_root t'))) pre =
                     List.map_filter (\<lambda>t'. pos_aabb_os (nodes a (tree_root t'))) pre"
          proof (rule map_filter_cong_set)
            fix t' assume t': "t' \<in> set pre"
            have "nodes b' (tree_root t') = nodes a' (tree_root t')" using nb ppre [OF t'] by simp
            also have "\<dots> = nodes a (tree_root t')" using foot cpre [OF t'] by simp
            finally show "pos_aabb_os (nodes b' (tree_root t')) = pos_aabb_os (nodes a (tree_root t'))"
              by simp
          qed
          have new: "pos_aabb_os (nodes b' (tree_root x)) = Some cb"
            using nb [OF cp] cb by (simp add: c_def)
          have i3: "pos_aabb_os (nodes b' p) =
            Some (foldl aabb_union b (List.map_filter (\<lambda>t'. pos_aabb_os (nodes b' (tree_root t'))) (pre @ [x])))"
          proof -
            have ob: "pos_aabb_os (nodes b' p) = Some (aabb_union acc cb)"
              by (simp add: b'_def upd_node_def)
            have "List.map_filter (\<lambda>t'. pos_aabb_os (nodes b' (tree_root t'))) (pre @ [x]) =
                  List.map_filter (\<lambda>t'. pos_aabb_os (nodes a (tree_root t'))) pre @ [cb]"
              unfolding map_filter_append old by (simp add: List.map_filter_simps new)
            then show ?thesis using ob acc(2) by simp
          qed
          have "I (pre @ [x]) b'" unfolding I_def using i1 i2 i3 by blast
          with step show ?thesis by blast
        qed
      qed
      then obtain s2 where loop: "for_each (\<lambda>t'. unite_child (UpdatePosBound k) p (tree_root t')) ts s1 = Some (Inr s2)"
        and I2: "I ts s2" by blast
      define s' where "s' = upd_node s2 p (\<lambda>n. n\<lparr> pos_aabb_dirty := False \<rparr>)"
      have run: "UpdatePosBound fuel s (tree_root (Tr p ts)) = Some (Inr s')"
        using dirty tracked b loop
        by (simp add: fuel kids for_each_map s1_def [symmetric] s'_def)
      from I2 have f2: "bound_frame s1 s2"
        and u2: "\<And>q. q \<noteq> p \<Longrightarrow> q \<notin> (\<Union>t'\<in>set ts. set (preorder t')) \<Longrightarrow> nodes s2 q = nodes s q"
        and o2: "pos_aabb_os (nodes s2 p) =
            Some (foldl aabb_union b (List.map_filter (\<lambda>t'. pos_aabb_os (nodes s2 (tree_root t'))) ts))"
        by (simp_all add: I_def)
      have fs: "bound_frame s s'"
        unfolding s'_def using f1 f2 bound_frame_clear_dirty bound_frame_trans by blast
      have foot: "\<forall>q. q \<notin> set (preorder (Tr p ts)) \<longrightarrow> nodes s' q = nodes s q"
        using u2 by (auto simp: s'_def upd_node_def)
      have clean: "\<not> pos_aabb_dirty (nodes s' (tree_root (Tr p ts)))"
        by (simp add: s'_def upd_node_def)
      have roots: "\<And>t'. t' \<in> set ts \<Longrightarrow> tree_root t' \<noteq> p"
        using pnot tree_root_in_preorder by fastforce
      have "tracked_child_bounds s' p = List.map_filter (\<lambda>t'. pos_aabb_os (nodes s' (tree_root t'))) ts"
        using bound_frame_fields(1) [OF fs, of p] by (simp add: tracked_child_bounds_def kids map_filter_map)
      also have "\<dots> = List.map_filter (\<lambda>t'. pos_aabb_os (nodes s2 (tree_root t'))) ts"
        by (rule map_filter_cong_set) (use roots in \<open>simp add: s'_def upd_node_def\<close>)
      finally have tb: "tracked_child_bounds s' p =
          List.map_filter (\<lambda>t'. pos_aabb_os (nodes s2 (tree_root t'))) ts" .
      have "pos_aabb_os (nodes s' p) = pos_aabb_os (nodes s2 p)"
        by (simp add: s'_def upd_node_def)
      then have os: "pos_aabb_os (nodes s' p) = Some (foldl aabb_union b (tracked_child_bounds s' p))"
        unfolding tb using o2 by simp
      show ?thesis using run fs foot clean b os by auto
    qed
  qed
qed

lemma two_cubes_nodes:
  "nodes two_cubes_scene 0 = (SceneNode_init exact_math SOA_Cullable)
      \<lparr> renderables := [Some 0, Some 1], renderables_hw_res_ready := [False, False] \<rparr>"
  by (simp add: two_cubes_scene_def empty_scene_def alloc_node_def AddRenderable_def upd_node_def
      SceneNode_init_def Let_def)

lemma two_cubes_rends:
  "rends two_cubes_scene 0 = drawable (cube (- 1) 1) False []"
  "rends two_cubes_scene (Suc 0) = drawable (cube 0 2) False []"
  by (simp_all add: two_cubes_scene_def empty_scene_def alloc_node_def AddRenderable_def upd_node_def Let_def)

lemma tracks_Cullable: "tracks_bound SOA_Cullable"
  by (simp add: tracks_bound_def SOA_Cullable_def SOA_Overlay_def SOA_Moveable_def)

lemma tracks_Moveable: "tracks_bound SOA_Moveable"
  by (simp add: tracks_bound_def SOA_Cullable_def SOA_Overlay_def SOA_Moveable_def)

lemma union_cubes: "aabb_union (cube (- 1) 1) (cube 0 2) = cube (- 1) 2"
  by (simp add: aabb_union_def cube_def minimize_def maximize_def)

lemma moveable_child_nodes:
  "nodes moveable_child_scene 0 = (SceneNode_init exact_math SOA_Cullable)
      \<lparr> children := [1], renderables := [Some 0], renderables_hw_res_ready := [False] \<rparr>"
  "nodes moveable_child_scene (Suc 0) = (SceneNode_init exact_math SOA_Moveable)
      \<lparr> parent := Some 0, renderables := [Some 1], renderables_hw_res_ready := [False] \<rparr>"
  by (simp_all add: moveable_child_scene_def empty_scene_def alloc_node_def AddRenderable_def
      AddChild_def Parent_set_def upd_node_def SceneNode_init_def Let_def)

lemma moveable_child_rends:
  "rends moveable_child_scene 0 = drawable (cube (- 1) 1) False []"
  "rends moveable_child_scene (Suc 0) = drawable (cube 0 2) False []"
  by (simp_all add: moveable_child_scene_def empty_scene_def alloc_node_def AddRenderable_def
      AddChild_def Parent_set_def upd_node_def Let_def)


lemma bound_ready_cong:
  "(\<And>q. pos_aabb_dirty (nodes a q) = pos_aabb_dirty (nodes s q) \<and>
         pos_aabb_os (nodes a q) = pos_aabb_os (nodes s q) \<and>
         renderables (nodes a q) = renderables (nodes s q)) \<Longrightarrow>
   bound_ready a t = bound_ready s t"
proof (induction t)
  case (Tr p ts)
  have sub: "bound_ready a t = bound_ready s t" if "t \<in> set ts" for t
    using Tr.IH [OF that] Tr.prems by simp
  have "list_all (\<lambda>t. pos_aabb_os (nodes a (tree_root t)) = None \<or> bound_ready a t) ts =
        list_all (\<lambda>t. pos_aabb_os (nodes s (tree_root t)) = None \<or> bound_ready s t) ts"
    using sub Tr.prems by (simp add: list_all_iff)
  then show ?case using Tr.prems [of p] by auto
qed

lemma set_renderable_model_loop:
  "list_all (\<lambda>r. r \<noteq> None) rs \<Longrightarrow>
   \<exists>s'. for_each (set_renderable_model m) rs s = Some (Inr s') \<and> nodes s' = nodes s \<and>
        next_node s' = next_node s \<and> scene_nodes s' = scene_nodes s"
proof (induction rs arbitrary: s)
  case Nil
  then show ?case by simp
next
  case (Cons r rs)
  from Cons.prems obtain x where r: "r = Some x" and rest: "list_all (\<lambda>r. r \<noteq> None) rs" by auto
  define s1 where "s1 = s\<lparr> rends := (rends s)(x := (rends s x)\<lparr> r_ModelMatrix := m \<rparr>) \<rparr>"
  from Cons.IH [OF rest, of s1] obtain s' where
    "for_each (set_renderable_model m) rs s1 = Some (Inr s')" "nodes s' = nodes s1"
    "next_node s' = next_node s1" "scene_nodes s' = scene_nodes s1" by blast
  moreover have "set_renderable_model m r s = Some (Inr s1)"
    by (simp add: r set_renderable_model_def s1_def)
  moreover have "nodes s1 = nodes s" "next_node s1 = next_node s" "scene_nodes s1 = scene_nodes s"
    by (simp_all add: s1_def)
  ultimately show ?case by simp
qed

lemma UpdatePosBound_clears:
  "UpdatePosBound fuel s p = Some (Inr s') \<Longrightarrow> \<not> pos_aabb_dirty (nodes s' p)"
proof (cases fuel)
  case 0
  assume "UpdatePosBound fuel s p = Some (Inr s')"
  with 0 show ?thesis by simp
next
  case (Suc k)
  assume "UpdatePosBound fuel s p = Some (Inr s')"
  with Suc show ?thesis
    by (cases "pos_aabb_dirty (nodes s p)") (auto simp: bind_run_Inr upd_node_def)
qed

lemma UpdatePosBound_clean: "\<not> pos_aabb_dirty (nodes s p) \<Longrightarrow> UpdatePosBound (Suc k) s p = Some (Inr s)"
  by simp

text \<open>
  The dirty flag on the runs that go through. \<^verbatim>\<open>AddChild\<close>, \<^verbatim>\<open>ClearChildren\<close>,
  \<^verbatim>\<open>AddRenderable\<close>, and \<^verbatim>\<open>RemoveChild\<close> and \<^verbatim>\<open>DelRenderable\<close> of an element that is
  present, leave the bound-dirty flag set. Whenever \<^verbatim>\<open>UpdatePosBound\<close> returns, the flag of
  its node is cleared, and a further \<^verbatim>\<open>UpdatePosBound\<close> returns the store as it is:
  nothing is recomputed a second time. On a tree whose nodes have the drawables the
  recomputation dereferences, and with a recursion bound that covers the height,
  \<^verbatim>\<open>UpdatePosBound\<close> does return.
\<close>

lemma dirty_flag_set_then_cleared:
  "pos_aabb_dirty (nodes (AddChild s p c) p) \<and>
   pos_aabb_dirty (nodes (ClearChildren s p) p) \<and>
   (c \<in> set (children (nodes s p)) \<longrightarrow> pos_aabb_dirty (nodes (RemoveChild s p c) p)) \<and>
   pos_aabb_dirty (nodes (AddRenderable s p r) p) \<and>
   (r \<in> set (renderables (nodes s p)) \<and>
      length (renderables_hw_res_ready (nodes s p)) = length (renderables (nodes s p)) \<longrightarrow>
      (\<exists>s'. DelRenderable s p r = Inr s' \<and> pos_aabb_dirty (nodes s' p))) \<and>
   (\<forall>s'. UpdatePosBound fuel s p = Some (Inr s') \<longrightarrow>
      \<not> pos_aabb_dirty (nodes s' p) \<and> (\<forall>k. UpdatePosBound (Suc k) s' p = Some (Inr s'))) \<and>
   (shape (nodes s) t \<and> distinct (preorder t) \<and> bound_ready s t \<and> height t \<le> fuel \<and>
      tree_root t = p \<longrightarrow> (\<exists>s'. UpdatePosBound fuel s p = Some (Inr s')))"
proof (intro conjI impI allI)
  show "pos_aabb_dirty (nodes (AddChild s p c) p)" by (simp add: AddChild_def upd_node_def)
  show "pos_aabb_dirty (nodes (ClearChildren s p) p)" by (simp add: ClearChildren_def upd_node_def)
  show "pos_aabb_dirty (nodes (RemoveChild s p c) p)" if "c \<in> set (children (nodes s p))"
    using find_index_present [OF that] by (simp add: RemoveChild_def upd_node_def Let_def)
  show "pos_aabb_dirty (nodes (AddRenderable s p r) p)" by (simp add: AddRenderable_def upd_node_def)
  show "\<exists>s'. DelRenderable s p r = Inr s' \<and> pos_aabb_dirty (nodes s' p)"
    if "r \<in> set (renderables (nodes s p)) \<and>
        length (renderables_hw_res_ready (nodes s p)) = length (renderables (nodes s p))"
    using find_index_present [of r "renderables (nodes s p)"] that
    by (simp add: DelRenderable_def upd_node_def Let_def)
  show "\<not> pos_aabb_dirty (nodes s' p)" if "UpdatePosBound fuel s p = Some (Inr s')" for s'
    using that by (rule UpdatePosBound_clears)
  show "UpdatePosBound (Suc k) s' p = Some (Inr s')" if "UpdatePosBound fuel s p = Some (Inr s')" for s' k
    using UpdatePosBound_clears [OF that] by (rule UpdatePosBound_clean)
  show "\<exists>s'. UpdatePosBound fuel s p = Some (Inr s')"
    if "shape (nodes s) t \<and> distinct (preorder t) \<and> bound_ready s t \<and> height t \<le> fuel \<and> tree_root t = p"
    using UpdatePosBound_tree [of s t fuel] that by blast
qed

lemma moveable_child_tree:
  "shape (nodes moveable_child_scene) (Tr 0 [Tr 1 []])"
  "distinct (preorder (Tr 0 [Tr 1 []]))"
  "bound_ready moveable_child_scene (Tr 0 [Tr 1 []])"
  "height (Tr 0 [Tr 1 []]) \<le> 2"
  by (simp_all add: moveable_child_nodes SceneNode_init_def tracks_Cullable tracks_Moveable)

lemma dirty_flag_set_then_cleared_example:
  "1 \<in> set (children (nodes moveable_child_scene 0)) \<and>
   pos_aabb_dirty (nodes (RemoveChild moveable_child_scene 0 1) 0) \<and>
   Some 0 \<in> set (renderables (nodes moveable_child_scene 0)) \<and>
   length (renderables_hw_res_ready (nodes moveable_child_scene 0)) =
     length (renderables (nodes moveable_child_scene 0)) \<and>
   (\<exists>s'. DelRenderable moveable_child_scene 0 (Some 0) = Inr s' \<and> pos_aabb_dirty (nodes s' 0)) \<and>
   shape (nodes moveable_child_scene) (Tr 0 [Tr 1 []]) \<and> distinct (preorder (Tr 0 [Tr 1 []])) \<and>
   bound_ready moveable_child_scene (Tr 0 [Tr 1 []]) \<and> height (Tr 0 [Tr 1 []]) \<le> 2 \<and>
   pos_aabb_dirty (nodes moveable_child_scene 0) \<and>
   (\<exists>s'. UpdatePosBound 2 moveable_child_scene 0 = Some (Inr s') \<and>
         \<not> pos_aabb_dirty (nodes s' 0) \<and> UpdatePosBound 2 s' 0 = Some (Inr s'))"
proof -
  note th = dirty_flag_set_then_cleared
    [of moveable_child_scene 0 1 "Some 0" 2 "Tr 0 [Tr 1 []]"]
  have c: "1 \<in> set (children (nodes moveable_child_scene 0))"
    and r: "Some 0 \<in> set (renderables (nodes moveable_child_scene 0))"
    and l: "length (renderables_hw_res_ready (nodes moveable_child_scene 0)) =
              length (renderables (nodes moveable_child_scene 0))"
    and d: "pos_aabb_dirty (nodes moveable_child_scene 0)"
    by (simp_all add: moveable_child_nodes SceneNode_init_def)
  from th moveable_child_tree obtain s' where s': "UpdatePosBound 2 moveable_child_scene 0 = Some (Inr s')"
    by auto
  with th have "\<not> pos_aabb_dirty (nodes s' 0)" "UpdatePosBound (Suc 1) s' 0 = Some (Inr s')"
    by blast+
  then have "\<exists>s'. UpdatePosBound 2 moveable_child_scene 0 = Some (Inr s') \<and>
         \<not> pos_aabb_dirty (nodes s' 0) \<and> UpdatePosBound 2 s' 0 = Some (Inr s')"
    using s' by (auto simp: numeral_2_eq_2)
  moreover have "pos_aabb_dirty (nodes (RemoveChild moveable_child_scene 0 1) 0)"
    using th c by blast
  moreover have "\<exists>s'. DelRenderable moveable_child_scene 0 (Some 0) = Inr s' \<and> pos_aabb_dirty (nodes s' 0)"
    using th r l by blast
  ultimately show ?thesis using c r l d moveable_child_tree by blast
qed


lemma two_cubes_tree:
  "shape (nodes two_cubes_scene) (Tr 0 [])"
  "distinct (preorder (Tr 0 []))"
  "bound_ready two_cubes_scene (Tr 0 [])"
  "height (Tr 0 []) \<le> 1"
  "tree_root (Tr 0 []) = 0"
  "pos_aabb_os (nodes two_cubes_scene 0) \<noteq> None"
  "pos_aabb_ws (nodes two_cubes_scene 0) \<noteq> None"
  "pos_aabb_dirty (nodes two_cubes_scene 0)"
  by (simp_all add: two_cubes_nodes SceneNode_init_def tracks_Cullable)

lemma transform_identity: "lo \<le> hi \<Longrightarrow> mat4_transform_aabb (cube lo hi) mat4_identity = cube lo hi"
  by (simp add: mat4_transform_aabb_def cube_def corners_def transform_coord_def mat4_identity_def
      minimize_def maximize_def Let_def)

text \<open>
  C3 as stated fails: the claim unites the bounds of the cullable descendants, the
  source those of the children that have a bound. In the scene with the moveable child
  the root has no cullable descendant, so the claimed bound is that of its own
  drawable, the cube from -1 to 1; the source unites the child's bound into it and
  yields the cube from -1 to 2.
\<close>

theorem bound_includes_moveable_child:
  "\<exists>s'. UpdatePosBound 2 moveable_child_scene 0 = Some (Inr s') \<and>
     shape (nodes moveable_child_scene) (Tr 0 [Tr 1 []]) \<and>
     renderables (nodes moveable_child_scene 0) \<noteq> [] \<and>
     tracks_bound (attrib (nodes moveable_child_scene 0)) \<and>
     attrib (nodes moveable_child_scene 1) AND SOA_Cullable = 0 \<and>
     pos_aabb_os (nodes s' 0) = Some (cube (- 1) 2) \<and>
     cullable_descendants_bound moveable_child_scene s' (Tr 0 [Tr 1 []]) = Some (cube (- 1) 1) \<and>
     pos_aabb_os (nodes s' 0) \<noteq> cullable_descendants_bound moveable_child_scene s' (Tr 0 [Tr 1 []])"
proof -
  have "\<exists>s'. UpdatePosBound 2 moveable_child_scene 0 = Some (Inr s') \<and>
     pos_aabb_os (nodes s' 0) = Some (cube (- 1) 2)"
    by (simp add: numeral_2_eq_2 moveable_child_nodes moveable_child_rends unite_child_def
      SceneNode_init_def tracks_Cullable tracks_Moveable upd_node_def drawable_def union_cubes)
  then obtain s' where s': "UpdatePosBound 2 moveable_child_scene 0 = Some (Inr s')"
     "pos_aabb_os (nodes s' 0) = Some (cube (- 1) 2)" by blast
  have nc: "attrib (nodes moveable_child_scene 1) AND SOA_Cullable = 0"
    by (simp add: moveable_child_nodes SceneNode_init_def SOA_Moveable_def SOA_Cullable_def)
  have cb: "cullable_descendants_bound moveable_child_scene s' (Tr 0 [Tr 1 []]) = Some (cube (- 1) 1)"
    using nc by (simp add: cullable_descendants_bound_def moveable_child_nodes moveable_child_rends
        drawable_def List.map_filter_simps)
  have ne: "cube (- 1) 2 \<noteq> cube (- 1) 1" by (simp add: cube_def)
  have "renderables (nodes moveable_child_scene 0) \<noteq> []"
    "tracks_bound (attrib (nodes moveable_child_scene 0))"
    by (simp_all add: moveable_child_nodes SceneNode_init_def tracks_Cullable)
  then show ?thesis using s' nc cb ne moveable_child_tree(1) by auto
qed

subsection \<open>Invariants under the operations\<close>

lemma field_stableD:
  assumes "field_stable M P"
  shows "aspects n' = aspects n \<Longrightarrow> P n \<Longrightarrow> P n'"
    and "P (SceneNode_init M a)"
    and "P n \<Longrightarrow> P (n\<lparr> renderables := renderables n @ [r],
                          renderables_hw_res_ready := renderables_hw_res_ready n @ [False] \<rparr>)"
    and "P n \<Longrightarrow> P (n\<lparr> renderables := erase_at i (renderables n),
                          renderables_hw_res_ready := erase_at i (renderables_hw_res_ready n) \<rparr>)"
  using assms unfolding field_stable_def by blast+

lemma nodes_all_same_aspects:
  assumes "field_stable M P" and "nodes_all P s"
      and "\<And>q. aspects (nodes s' q) = aspects (nodes s q)"
  shows "nodes_all P s'"
  using assms field_stableD(1) [OF assms(1)] unfolding nodes_all_def by blast

lemma nodes_all_same_nodes: "nodes s' = nodes s \<Longrightarrow> nodes_all P s' = nodes_all P s"
  by (simp add: nodes_all_def)

lemma nodes_all_upd:
  "nodes_all P s \<Longrightarrow> P (f (nodes s p)) \<Longrightarrow> nodes_all P (upd_node s p f)"
  by (simp add: nodes_all_def upd_node_def)

lemma bound_frame_aspects: "bound_frame s s' \<Longrightarrow> aspects (nodes s' q) = aspects (nodes s q)"
  using bound_frame_fields [of s s' q] bound_frame_presence [of s s' q]
  by (simp add: aspects_def)

lemma vis_frame_aspects: "vis_frame vis s s' \<Longrightarrow> aspects (nodes s' q) = aspects (nodes s q)"
proof -
  assume f: "vis_frame vis s s'"
  then have e: "nodes s' q = (nodes s q)\<lparr> attrib := attrib (nodes s' q) \<rparr>"
    and a: "attrib (nodes s' q) AND NOT SOA_Invisible = attrib (nodes s q) AND NOT SOA_Invisible"
    by (simp_all add: vis_frame_def)
  have "renderables (nodes s' q) = renderables (nodes s q)"
    "renderables_hw_res_ready (nodes s' q) = renderables_hw_res_ready (nodes s q)"
    "pos_aabb_os (nodes s' q) = pos_aabb_os (nodes s q)"
    "pos_aabb_ws (nodes s' q) = pos_aabb_ws (nodes s q)"
    using arg_cong [OF e, of renderables] arg_cong [OF e, of renderables_hw_res_ready]
      arg_cong [OF e, of pos_aabb_os] arg_cong [OF e, of pos_aabb_ws] by simp_all
  with a show ?thesis by (simp add: aspects_def)
qed

lemma Visible_set_frame: "Visible_set fuel s p vis = Some s' \<Longrightarrow> vis_frame vis s s'"
proof (induction fuel arbitrary: s p s')
  case 0
  then show ?case by simp
next
  case (Suc k)
  define s1 where "s1 = upd_node s p (\<lambda>n. n\<lparr> attrib :=
                 (if vis then attrib n AND NOT SOA_Invisible else attrib n OR SOA_Invisible) \<rparr>)"
  from Suc.prems have loop:
    "for_each_o (\<lambda>child s'. Visible_set k s' child vis) (children (nodes s1 p)) s1 = Some s'"
    by (simp add: s1_def Let_def)
  have "vis_frame vis s s1" unfolding s1_def by (rule vis_frame_step)
  then show ?case
    by (rule for_each_o_invariant [OF loop]) (use Suc.IH vis_frame_trans in blast)
qed

lemma preserve_alloc:
  "nodes_all P s \<Longrightarrow> P n \<Longrightarrow> nodes_all P (fst (alloc_node s n))"
  by (simp add: nodes_all_def alloc_node_def)


lemma preserve_named:
  assumes "field_stable M P"
  shows "P (SceneNode_named M nm a)"
  by (rule field_stableD(1) [OF assms, of _ "SceneNode_init M a"])
     (simp_all add: field_stableD(2) [OF assms] SceneNode_named_def aspects_def)


lemma preserve_simple:
  assumes st: "field_stable M P" and inv: "nodes_all P s"
  shows "nodes_all P (Name_set s p nm)"
    and "nodes_all P (Parent_set s p so)"
    and "nodes_all P (AddChild s p c)"
    and "nodes_all P (RemoveChild s p c)"
    and "nodes_all P (ClearChildren s p)"
    and "nodes_all P (ModelMatrix_set s p mat)"
    and "nodes_all P (VisibleMark_set s p vm)"
    and "nodes_all P (BindSubThreadUpdateFunc s p uf)"
    and "nodes_all P (BindMainThreadUpdateFunc s p uf)"
  by (rule nodes_all_same_aspects [OF st inv],
      simp add: aspects_def upd_node_def Name_set_def Parent_set_def AddChild_def RemoveChild_def
        ClearChildren_def ModelMatrix_set_def VisibleMark_set_def BindSubThreadUpdateFunc_def
        BindMainThreadUpdateFunc_def Let_def)+


lemma preserve_AddRenderable:
  assumes st: "field_stable M P" and inv: "nodes_all P s"
  shows "nodes_all P (AddRenderable s p r)"
  unfolding AddRenderable_def
proof (rule nodes_all_upd [OF inv])
  let ?n1 = "(nodes s p)\<lparr> renderables := renderables (nodes s p) @ [r],
      renderables_hw_res_ready := renderables_hw_res_ready (nodes s p) @ [False] \<rparr>"
  have "P ?n1" using inv by (intro field_stableD(3) [OF st]) (simp add: nodes_all_def)
  then show "P ((nodes s p)\<lparr> renderables := renderables (nodes s p) @ [r],
      renderables_hw_res_ready := renderables_hw_res_ready (nodes s p) @ [False],
      pos_aabb_dirty := True \<rparr>)"
    by (rule field_stableD(1) [OF st, rotated]) (simp add: aspects_def)
qed


lemma preserve_DelRenderable:
  assumes st: "field_stable M P" and inv: "nodes_all P s" and run: "DelRenderable s p r = Inr s'"
  shows "nodes_all P s'"
proof (cases "find_index (renderables (nodes s p)) r \<noteq> length (renderables (nodes s p))")
  case False
  with run inv show ?thesis by (simp add: DelRenderable_def Let_def)
next
  case True
  define i where "i = find_index (renderables (nodes s p)) r"
  let ?n1 = "(nodes s p)\<lparr> renderables := erase_at i (renderables (nodes s p)),
      renderables_hw_res_ready := erase_at i (renderables_hw_res_ready (nodes s p)) \<rparr>"
  from run True have s': "s' = upd_node s p (\<lambda>n. n\<lparr> renderables := erase_at i (renderables n),
                       renderables_hw_res_ready := erase_at i (renderables_hw_res_ready n),
                       pos_aabb_dirty := True \<rparr>)"
    by (simp add: DelRenderable_def Let_def i_def split: if_splits)
  have "P ?n1" using inv by (intro field_stableD(4) [OF st]) (simp add: nodes_all_def)
  then have "P (?n1\<lparr> pos_aabb_dirty := True \<rparr>)"
    by (rule field_stableD(1) [OF st, rotated]) (simp add: aspects_def)
  then show ?thesis unfolding s' by (intro nodes_all_upd [OF inv]) simp
qed


lemma preserve_UpdatePosBound:
  assumes "field_stable M P" and "nodes_all P s" and "UpdatePosBound fuel s p = Some (Inr s')"
  shows "nodes_all P s'"
  using assms(1,2) by (rule nodes_all_same_aspects) (rule bound_frame_aspects [OF UpdatePosBound_frame [OF assms(3)]])


lemma preserve_Visible_set:
  assumes "field_stable M P" and "nodes_all P s" and "Visible_set fuel s p vis = Some s'"
  shows "nodes_all P s'"
  using assms(1,2) by (rule nodes_all_same_aspects) (rule vis_frame_aspects [OF Visible_set_frame [OF assms(3)]])


lemma for_each_rends_only:
  assumes run: "for_each f rs s = Some (Inr s')"
      and step: "\<And>r a b. f r a = Some (Inr b) \<Longrightarrow> nodes b = nodes a \<and> next_node b = next_node a \<and>
                   scene_nodes b = scene_nodes a \<and>
                   (\<forall>x. HWResourceReady (rends b x) = HWResourceReady (rends a x))"
  shows "nodes s' = nodes s \<and> next_node s' = next_node s \<and> scene_nodes s' = scene_nodes s \<and>
         (\<forall>x. HWResourceReady (rends s' x) = HWResourceReady (rends s x))"
proof (rule for_each_invariant [OF run])
  show "nodes s = nodes s \<and> next_node s = next_node s \<and> scene_nodes s = scene_nodes s \<and>
         (\<forall>x. HWResourceReady (rends s x) = HWResourceReady (rends s x))" by simp
next
  fix r a b
  assume a: "nodes a = nodes s \<and> next_node a = next_node s \<and> scene_nodes a = scene_nodes s \<and>
         (\<forall>x. HWResourceReady (rends a x) = HWResourceReady (rends s x))"
    and "f r a = Some (Inr b)"
  from step [OF this(2)] a
  show "nodes b = nodes s \<and> next_node b = next_node s \<and> scene_nodes b = scene_nodes s \<and>
         (\<forall>x. HWResourceReady (rends b x) = HWResourceReady (rends s x))" by simp
qed


lemma set_renderable_model_step:
  assumes "set_renderable_model m r a = Some (Inr b)"
  shows "nodes b = nodes a \<and> next_node b = next_node a \<and> scene_nodes b = scene_nodes a \<and>
     (\<forall>x. HWResourceReady (rends b x) = HWResourceReady (rends a x))"
proof (cases r)
  case None
  with assms show ?thesis by (simp add: set_renderable_model_def)
next
  case (Some y)
  with assms have b: "b = a\<lparr> rends := (rends a)(y := (rends a y)\<lparr> r_ModelMatrix := m \<rparr>) \<rparr>"
    by (simp add: set_renderable_model_def)
  show ?thesis unfolding b by simp
qed


lemma set_renderable_select_step:
  assumes "set_renderable_select sel r a = Some (Inr b)"
  shows "nodes b = nodes a \<and> next_node b = next_node a \<and> scene_nodes b = scene_nodes a \<and>
     (\<forall>x. HWResourceReady (rends b x) = HWResourceReady (rends a x))"
proof (cases r)
  case None
  with assms show ?thesis by (simp add: set_renderable_select_def)
next
  case (Some y)
  with assms have b: "b = a\<lparr> rends := (rends a)(y := (rends a y)\<lparr> r_SelectMode := sel \<rparr>) \<rparr>"
    by (simp add: set_renderable_select_def)
  show ?thesis unfolding b by simp
qed


lemma set_renderable_id_step:
  assumes "set_renderable_id i r a = Some (Inr b)"
  shows "nodes b = nodes a \<and> next_node b = next_node a \<and> scene_nodes b = scene_nodes a \<and>
     (\<forall>x. HWResourceReady (rends b x) = HWResourceReady (rends a x))"
proof (cases r)
  case None
  with assms show ?thesis by (simp add: set_renderable_id_def)
next
  case (Some y)
  with assms have b: "b = a\<lparr> rends := (rends a)(y := (rends a y)\<lparr> r_ObjectID := i \<rparr>) \<rparr>"
    by (simp add: set_renderable_id_def)
  show ?thesis unfolding b by simp
qed


lemma set_renderable_pass_step:
  assumes "set_renderable_pass ty r a = Some (Inr b)"
  shows "nodes b = nodes a \<and> next_node b = next_node a \<and> scene_nodes b = scene_nodes a \<and>
     (\<forall>x. HWResourceReady (rends b x) = HWResourceReady (rends a x))"
proof (cases r)
  case None
  with assms show ?thesis by (simp add: set_renderable_pass_def)
next
  case (Some y)
  with assms have b: "b = a\<lparr> rends := (rends a)(y := (rends a y)\<lparr> r_Pass := ty \<rparr>) \<rparr>"
    by (simp add: set_renderable_pass_def)
  show ?thesis unfolding b by simp
qed


lemma preserve_renderable_setters:
  assumes inv: "nodes_all P s"
  shows "SelectMode_set s p sel = Some (Inr s') \<Longrightarrow> nodes_all P s'"
    and "ObjectID_set s p i = Some (Inr s') \<Longrightarrow> nodes_all P s'"
proof -
  assume "SelectMode_set s p sel = Some (Inr s')"
  then have "for_each (set_renderable_select sel) (renderables (nodes s p)) s = Some (Inr s')"
    by (simp add: SelectMode_set_def)
  from for_each_rends_only [OF this set_renderable_select_step] inv
  show "nodes_all P s'" by (simp add: nodes_all_def)
next
  assume "ObjectID_set s p i = Some (Inr s')"
  then have "for_each (set_renderable_id i) (renderables (nodes s p)) s = Some (Inr s')"
    by (simp add: ObjectID_set_def)
  from for_each_rends_only [OF this set_renderable_id_step] inv
  show "nodes_all P s'" by (simp add: nodes_all_def)
qed


lemma preserve_Pass:
  assumes st: "field_stable M P" and inv: "nodes_all P s"
      and run: "Pass is_shadow_map fuel s p ty = Some (Inr s')"
  shows "nodes_all P s'"
proof -
  from run [unfolded Pass_def bind_run_Inr]
  obtain s1 where s1: "for_each (set_renderable_pass ty) (renderables (nodes s p)) s = Some (Inr s1)"
    and rest: "(if attrib (nodes s1 p) AND SOA_NotCastShadow \<noteq> 0
              then (case Visible_set fuel s1 p (\<not> is_shadow_map ty) of
                      None \<Rightarrow> None
                    | Some s2 \<Rightarrow> Some (Inr s2))
              else Some (Inr s1)) = (Some (Inr s') :: (error + _) option)"
    by blast
  from for_each_rends_only [OF s1 set_renderable_pass_step] have "nodes s1 = nodes s" by simp
  then have i1: "nodes_all P s1" using inv by (simp add: nodes_all_def)
  from rest show ?thesis
  proof (cases "attrib (nodes s1 p) AND SOA_NotCastShadow \<noteq> 0")
    case False
    with rest i1 show ?thesis by simp
  next
    case True
    with rest have "Visible_set fuel s1 p (\<not> is_shadow_map ty) = Some s'"
      by (simp split: option.splits)
    then show ?thesis by (rule preserve_Visible_set [OF st i1])
  qed
qed



lemma UpdateAbsModelMatrix_keeps:
  fixes s :: "'m Scene"
  assumes run: "UpdateAbsModelMatrix M fuel s p = Some (Inr s')"
  shows "(\<forall>q. aspects (nodes s' q) = aspects (nodes s q) \<and>
              renderables (nodes s' q) = renderables (nodes s q) \<and>
              renderables_hw_res_ready (nodes s' q) = renderables_hw_res_ready (nodes s q) \<and>
              main_thread_update_func (nodes s' q) = main_thread_update_func (nodes s q) \<and>
              children (nodes s' q) = children (nodes s q)) \<and>
         (\<forall>x. HWResourceReady (rends s' x) = HWResourceReady (rends s x)) \<and>
         next_node s' = next_node s"
proof -
  define s1 where "s1 = upd_node s p (\<lambda>n. n\<lparr> abs_model :=
                 (case parent n of
                    Some q \<Rightarrow> mat_mul M (ModelMatrix s q) (model n)
                  | None \<Rightarrow> model n) \<rparr>)"
  define K where "K a \<longleftrightarrow> (\<forall>q. aspects (nodes a q) = aspects (nodes s q) \<and>
              renderables (nodes a q) = renderables (nodes s q) \<and>
              renderables_hw_res_ready (nodes a q) = renderables_hw_res_ready (nodes s q) \<and>
              main_thread_update_func (nodes a q) = main_thread_update_func (nodes s q) \<and>
              children (nodes a q) = children (nodes s q)) \<and>
         (\<forall>x. HWResourceReady (rends a x) = HWResourceReady (rends s x)) \<and>
         next_node a = next_node s" for a :: "'m Scene"
  have k1: "K s1" by (simp add: K_def s1_def upd_node_def aspects_def)
  show ?thesis
  proof (cases "renderables (nodes s1 p) = []")
    case True
    with run have "s' = s1" by (simp add: UpdateAbsModelMatrix_def s1_def [symmetric] Let_def)
    with k1 show ?thesis by (simp add: K_def)
  next
    case False
    with run obtain s3 where
      s3: "(if pos_aabb_ws (nodes s1 p) \<noteq> None
                 then bind_run (UpdatePosBound fuel s1 p)
                        (\<lambda>s2. case pos_aabb_os (nodes s2 p) of
                                 None \<Rightarrow> Some (Inl NullPointer)
                               | Some b \<Rightarrow>
                                   Some (Inr (upd_node s2 p (\<lambda>n. n\<lparr> pos_aabb_ws :=
                                     Some (transform_aabb M b (abs_model n)) \<rparr>))))
                 else Some (Inr s1)) = Some (Inr s3)"
      and loop: "for_each (set_renderable_model (abs_model (nodes s3 p)))
                         (renderables (nodes s3 p)) s3 = Some (Inr s')"
      by (auto simp: UpdateAbsModelMatrix_def s1_def [symmetric] Let_def bind_run_Inr)
    have k3: "K s3"
    proof (cases "pos_aabb_ws (nodes s1 p) \<noteq> None")
      case False
      with s3 k1 show ?thesis by simp
    next
      case True
      with s3 obtain s2 b where s2: "UpdatePosBound fuel s1 p = Some (Inr s2)"
        and e: "s3 = upd_node s2 p (\<lambda>n. n\<lparr> pos_aabb_ws := Some (transform_aabb M b (abs_model n)) \<rparr>)"
        by (auto simp: bind_run_Inr split: option.splits)
      note f = UpdatePosBound_frame [OF s2]
      have ws2: "pos_aabb_ws (nodes s2 p) \<noteq> None" using True bound_frame_fields(5) [OF f, of p] by simp
      have "K s2"
        using k1 bound_frame_aspects [OF f] bound_frame_fields [OF f] f
        by (simp add: K_def bound_frame_def)
      then show ?thesis using ws2 by (auto simp: K_def e upd_node_def aspects_def)
    qed
    from for_each_rends_only [OF loop set_renderable_model_step] k3
    show ?thesis by (simp add: K_def)
  qed
qed

lemma preserve_UpdateAbsModelMatrix:
  assumes "field_stable M' P" and "nodes_all P s" and "UpdateAbsModelMatrix M fuel s p = Some (Inr s')"
  shows "nodes_all P s'"
  using assms(1,2) by (rule nodes_all_same_aspects) (use UpdateAbsModelMatrix_keeps [OF assms(3)] in simp)

lemma AddToSceneManagerLocked_nodes:
  "AddToSceneManagerLocked fuel s p = Some s' \<Longrightarrow>
   nodes s' = nodes s \<and> rends s' = rends s \<and> next_node s' = next_node s"
proof (induction fuel arbitrary: s p s')
  case 0
  then show ?case by simp
next
  case (Suc k)
  from Suc.prems have loop:
    "for_each_o (\<lambda>child s'. AddToSceneManagerLocked k s' child) (children (nodes s p))
       (s\<lparr> scene_nodes := scene_nodes s @ [p] \<rparr>) = Some s'" by simp
  show ?case
    by (rule for_each_o_invariant [OF loop]) (use Suc.IH in \<open>simp, metis\<close>)
qed

lemma DelFromSceneManagerLocked_nodes:
  "DelFromSceneManagerLocked fuel s p = Some s' \<Longrightarrow>
   nodes s' = nodes s \<and> rends s' = rends s \<and> next_node s' = next_node s"
proof (induction fuel arbitrary: s p s')
  case 0
  then show ?case by simp
next
  case (Suc k)
  from Suc.prems obtain s1 where loop:
    "for_each_o (\<lambda>child s'. DelFromSceneManagerLocked k s' child) (children (nodes s p)) s = Some s1"
    and e: "s' = s1\<lparr> scene_nodes := erase_at (find_index (scene_nodes s1) p) (scene_nodes s1) \<rparr>"
    by (auto split: option.splits)
  have "nodes s1 = nodes s \<and> rends s1 = rends s \<and> next_node s1 = next_node s"
    by (rule for_each_o_invariant [OF loop]) (use Suc.IH in \<open>simp, metis\<close>)
  then show ?case by (simp add: e)
qed

lemma attach_sub_preserve:
  assumes st: "field_stable M P"
      and att: "\<And>a c b. attach a c = Some b \<Longrightarrow> nodes_all P a \<Longrightarrow> nodes_all P b"
      and reg: "\<And>a c b. register a c = Some b \<Longrightarrow> nodes b = nodes a"
      and inv: "nodes_all P s"
      and run: "attach_sub M attach register p add_to_scene sub s = Some s'"
  shows "nodes_all P s'"
proof -
  define s0 where "s0 = fst (alloc_node s (SceneNode_init M (attrib (nodes s p))))"
  define child where "child = next_node s"
  have al: "alloc_node s (SceneNode_init M (attrib (nodes s p))) = (s0, child)"
    by (simp add: s0_def child_def alloc_node_def)
  from run obtain s2 where s2: "attach (AddRenderable s0 child sub) child = Some s2"
    and rest: "(let s3 = Parent_set s2 child (Some p);
                    s4 = upd_node s3 p (\<lambda>n. n\<lparr> children := children n @ [child] \<rparr>)
                in if add_to_scene then register s4 child else Some s4) = Some s'"
    by (auto simp: attach_sub_def al split: option.splits)
  have i0: "nodes_all P s0"
    unfolding s0_def using inv field_stableD(2) [OF st] by (rule preserve_alloc)
  have i2: "nodes_all P s2" using att [OF s2] preserve_AddRenderable [OF st i0] by simp
  define s4 where "s4 = upd_node (Parent_set s2 child (Some p)) p (\<lambda>n. n\<lparr> children := children n @ [child] \<rparr>)"
  have i4: "nodes_all P s4"
    using st i2 unfolding s4_def
    by (rule nodes_all_same_aspects) (simp add: aspects_def upd_node_def Parent_set_def)
  from rest have "s' = s4 \<or> register s4 child = Some s'"
    by (auto simp: Let_def s4_def split: if_splits)
  then show ?thesis using i4 reg by (auto simp: nodes_all_def)
qed

lemma preserve_OnAttachRenderable:
  assumes st: "field_stable M P"
  shows "nodes_all P s \<Longrightarrow> OnAttachRenderable M fuel s p add_to_scene = Some s' \<Longrightarrow> nodes_all P s'"
proof (induction fuel arbitrary: s p add_to_scene s')
  case 0
  then show ?case by simp
next
  case (Suc k)
  from Suc.prems(2) have loop: "for_each_o
       (attach_renderable M (\<lambda>s' c. OnAttachRenderable M k s' c False)
          (AddToSceneManagerLocked k) p add_to_scene)
       (renderables (nodes s p)) s = Some s'" by simp
  show ?case
  proof (rule for_each_o_invariant [where I = "nodes_all P", OF loop Suc.prems(1)])
    fix r a b
    assume ia: "nodes_all P a"
      and step: "attach_renderable M (\<lambda>s' c. OnAttachRenderable M k s' c False)
          (AddToSceneManagerLocked k) p add_to_scene r a = Some b"
    show "nodes_all P b"
    proof (cases r)
      case None
      with step ia show ?thesis by (simp add: attach_renderable_def)
    next
      case (Some x)
      with step have inner: "for_each_o (attach_sub M (\<lambda>s' c. OnAttachRenderable M k s' c False)
          (AddToSceneManagerLocked k) p add_to_scene) (Subrenderables (rends a x)) a = Some b"
        by (simp add: attach_renderable_def)
      show ?thesis
      proof (rule for_each_o_invariant [where I = "nodes_all P", OF inner ia])
        fix sub c d
        assume "nodes_all P c"
          and "attach_sub M (\<lambda>s' c. OnAttachRenderable M k s' c False)
                 (AddToSceneManagerLocked k) p add_to_scene sub c = Some d"
        then show "nodes_all P d"
          using attach_sub_preserve [OF st _ _ \<open>nodes_all P c\<close>, of "\<lambda>s' c. OnAttachRenderable M k s' c False"
              "AddToSceneManagerLocked k" p add_to_scene sub d]
            Suc.IH AddToSceneManagerLocked_nodes by blast
      qed
    qed
  qed
qed

lemma preserve_SceneNode_with_renderable:
  assumes st: "field_stable M P" and inv: "nodes_all P s"
      and run: "SceneNode_with_renderable M fuel s r a = Some (s', q)"
  shows "nodes_all P s'"
proof -
  define s0 where "s0 = fst (alloc_node s (SceneNode_init M a))"
  have al: "alloc_node s (SceneNode_init M a) = (s0, next_node s)"
    by (simp add: s0_def alloc_node_def)
  from run have att: "OnAttachRenderable M fuel (AddRenderable s0 (next_node s) r) (next_node s) False = Some s'"
    by (auto simp: SceneNode_with_renderable_def al split: option.splits)
  have "nodes_all P s0" unfolding s0_def using inv field_stableD(2) [OF st] by (rule preserve_alloc)
  then have "nodes_all P (AddRenderable s0 (next_node s) r)" by (rule preserve_AddRenderable [OF st])
  then show ?thesis using att by (rule preserve_OnAttachRenderable [OF st])
qed

lemma scan_ready_length:
  "scan_ready R rs i fl b = Inr (fl', b') \<Longrightarrow> length fl' = length fl"
  by (induction R rs i fl b rule: scan_ready.induct) (auto split: if_splits)

lemma preserve_MainThreadUpdate:
  assumes st: "field_stable M P" and inv: "nodes_all P s"
      and cb: "\<And>f x q t dt. nodes_all P x \<Longrightarrow> nodes_all P (cbs f x q t dt)"
      and run: "MainThreadUpdate M cbs fuel s p u v = Some (Inr (s', b))"
  shows "nodes_all P s'"
proof -
  from run obtain fl s3 where
    sc: "scan_ready (rends s) (renderables (nodes s p)) 0 (renderables_hw_res_ready (nodes s p)) False
           = Inr (fl, b)"
    and mid: "(let s1 = upd_node s p (\<lambda>n. n\<lparr> renderables_hw_res_ready := fl \<rparr>)
             in if b
                then (case OnAttachRenderable M fuel s1 p False of
                        None \<Rightarrow> None
                      | Some s2 \<Rightarrow> UpdateAbsModelMatrix M fuel s2 p)
                else Some (Inr s1)) = Some (Inr s3)"
    and fin: "s' = run_main_thread_update_func cbs s3 p u v"
    by (auto simp: MainThreadUpdate_def bind_run_Inr split: sum.splits)
  define s1 where "s1 = upd_node s p (\<lambda>n. n\<lparr> renderables_hw_res_ready := fl \<rparr>)"
  have i1: "nodes_all P s1"
    using st inv unfolding s1_def
    by (rule nodes_all_same_aspects) (simp add: aspects_def upd_node_def scan_ready_length [OF sc])
  have i3: "nodes_all P s3"
  proof (cases b)
    case False
    with mid i1 show ?thesis by (simp add: s1_def)
  next
    case True
    with mid obtain s2 where s2: "OnAttachRenderable M fuel s1 p False = Some s2"
      and ab: "UpdateAbsModelMatrix M fuel s2 p = Some (Inr s3)"
      by (auto simp: s1_def Let_def split: option.splits)
    from preserve_OnAttachRenderable [OF st i1 s2] have "nodes_all P s2" .
    then show ?thesis using ab by (rule preserve_UpdateAbsModelMatrix [OF st])
  qed
  show ?thesis unfolding fin run_main_thread_update_func_def
    using i3 cb by (simp split: option.splits)
qed

lemma preserve_SubThreadUpdate:
  assumes inv: "nodes_all P s"
      and cb: "\<And>f x q t dt. nodes_all P x \<Longrightarrow> nodes_all P (cbs f x q t dt)"
  shows "nodes_all P (SubThreadUpdate cbs s p u v)"
  unfolding SubThreadUpdate_def using inv cb by (simp split: option.splits)

lemma attach_frame_refl: "attach_frame s s"
  by (simp add: attach_frame_def)

lemma attach_frame_trans:
  assumes ab: "attach_frame a b" and bc: "attach_frame b c"
  shows "attach_frame a c"
proof -
  have le: "next_node a \<le> next_node b" "next_node b \<le> next_node c"
    using ab bc by (simp_all add: attach_frame_def)
  have "nodes c q = (nodes a q)\<lparr> children := children (nodes c q) \<rparr>" if q: "q < next_node a" for q
  proof -
    from ab q have b1: "nodes b q = (nodes a q)\<lparr> children := children (nodes b q) \<rparr>"
      by (simp add: attach_frame_def)
    from bc q le have c1: "nodes c q = (nodes b q)\<lparr> children := children (nodes c q) \<rparr>"
      by (simp add: attach_frame_def)
    have "nodes c q = ((nodes a q)\<lparr> children := children (nodes b q) \<rparr>)\<lparr> children := children (nodes c q) \<rparr>"
      using c1 b1 by simp
    then show ?thesis by simp
  qed
  moreover have "rends c = rends a" using ab bc by (simp add: attach_frame_def)
  ultimately show ?thesis using le by (simp add: attach_frame_def)
qed

lemma attach_frame_same_old:
  assumes "rends b = rends a" and "next_node a \<le> next_node b"
      and "\<And>q. q < next_node a \<Longrightarrow> nodes b q = (nodes a q)\<lparr> children := children (nodes b q) \<rparr>"
  shows "attach_frame a b"
  using assms by (simp add: attach_frame_def)

lemma attach_sub_frame:
  assumes att: "\<And>a c b. attach a c = Some b \<Longrightarrow> attach_frame a b"
      and reg: "\<And>a c b. register a c = Some b \<Longrightarrow>
                  nodes b = nodes a \<and> rends b = rends a \<and> next_node b = next_node a"
      and run: "attach_sub M attach register p add_to_scene sub s = Some s'"
  shows "attach_frame s s'"
proof -
  define s0 where "s0 = fst (alloc_node s (SceneNode_init M (attrib (nodes s p))))"
  define child where "child = next_node s"
  have al: "alloc_node s (SceneNode_init M (attrib (nodes s p))) = (s0, child)"
    by (simp add: s0_def child_def alloc_node_def)
  from run obtain s2 where s2: "attach (AddRenderable s0 child sub) child = Some s2"
    and rest: "(let s3 = Parent_set s2 child (Some p);
                    s4 = upd_node s3 p (\<lambda>n. n\<lparr> children := children n @ [child] \<rparr>)
                in if add_to_scene then register s4 child else Some s4) = Some s'"
    by (auto simp: attach_sub_def al split: option.splits)
  define s1 where "s1 = AddRenderable s0 child sub"
  have f1: "attach_frame s s1"
    by (rule attach_frame_same_old)
       (simp_all add: s1_def s0_def child_def alloc_node_def AddRenderable_def upd_node_def)
  have f2: "attach_frame s1 s2" using att s2 by (simp add: s1_def)
  define s4 where "s4 = upd_node (Parent_set s2 child (Some p)) p (\<lambda>n. n\<lparr> children := children n @ [child] \<rparr>)"
  have f02: "attach_frame s s2" using f1 f2 by (rule attach_frame_trans)
  have f4: "attach_frame s s4"
  proof (rule attach_frame_same_old)
    show "rends s4 = rends s" "next_node s \<le> next_node s4"
      using f02 by (simp_all add: s4_def upd_node_def Parent_set_def attach_frame_def)
  next
    fix q assume q: "q < next_node s"
    then have qc: "q \<noteq> child" by (simp add: child_def)
    from f02 q have e: "nodes s2 q = (nodes s q)\<lparr> children := children (nodes s2 q) \<rparr>"
      by (simp add: attach_frame_def)
    have "nodes s4 q = (nodes s2 q)\<lparr> children := children (nodes s4 q) \<rparr>"
      using qc by (simp add: s4_def upd_node_def Parent_set_def)
    then have "nodes s4 q = ((nodes s q)\<lparr> children := children (nodes s2 q) \<rparr>)\<lparr> children := children (nodes s4 q) \<rparr>"
      using e by simp
    then show "nodes s4 q = (nodes s q)\<lparr> children := children (nodes s4 q) \<rparr>" by simp
  qed
  from rest have "s' = s4 \<or> register s4 child = Some s'"
    by (auto simp: Let_def s4_def split: if_splits)
  then show ?thesis
  proof
    assume "s' = s4" with f4 show ?thesis by simp
  next
    assume "register s4 child = Some s'"
    from reg [OF this] f4 show ?thesis by (simp add: attach_frame_def)
  qed
qed

lemma OnAttachRenderable_frame:
  "OnAttachRenderable M fuel s p add_to_scene = Some s' \<Longrightarrow> attach_frame s s'"
proof (induction fuel arbitrary: s p add_to_scene s')
  case 0
  then show ?case by simp
next
  case (Suc k)
  from Suc.prems have loop: "for_each_o
       (attach_renderable M (\<lambda>s' c. OnAttachRenderable M k s' c False)
          (AddToSceneManagerLocked k) p add_to_scene)
       (renderables (nodes s p)) s = Some s'" by simp
  show ?case
  proof (rule for_each_o_invariant [where I = "attach_frame s", OF loop attach_frame_refl])
    fix r a b
    assume ia: "attach_frame s a"
      and step: "attach_renderable M (\<lambda>s' c. OnAttachRenderable M k s' c False)
          (AddToSceneManagerLocked k) p add_to_scene r a = Some b"
    show "attach_frame s b"
    proof (cases r)
      case None
      with step ia show ?thesis by (simp add: attach_renderable_def)
    next
      case (Some x)
      with step have inner: "for_each_o (attach_sub M (\<lambda>s' c. OnAttachRenderable M k s' c False)
          (AddToSceneManagerLocked k) p add_to_scene) (Subrenderables (rends a x)) a = Some b"
        by (simp add: attach_renderable_def)
      show ?thesis
      proof (rule for_each_o_invariant [where I = "attach_frame s", OF inner ia])
        fix sub c d
        assume ic: "attach_frame s c"
          and "attach_sub M (\<lambda>s' c. OnAttachRenderable M k s' c False)
                 (AddToSceneManagerLocked k) p add_to_scene sub c = Some d"
        then have "attach_frame c d"
          using attach_sub_frame [of "\<lambda>s' c. OnAttachRenderable M k s' c False"
              "AddToSceneManagerLocked k" M p add_to_scene sub c d]
            Suc.IH AddToSceneManagerLocked_nodes by blast
        with ic show "attach_frame s d" by (rule attach_frame_trans)
      qed
    qed
  qed
qed

lemma preserve_scene_manager:
  assumes "nodes_all P s"
  shows "AddToSceneManagerLocked fuel s p = Some s' \<Longrightarrow> nodes_all P s'"
    and "AddToSceneManager fuel s p = Some s' \<Longrightarrow> nodes_all P s'"
    and "DelFromSceneManagerLocked fuel s p = Some s' \<Longrightarrow> nodes_all P s'"
    and "DelFromSceneManager fuel s p = Some s' \<Longrightarrow> nodes_all P s'"
  using assms AddToSceneManagerLocked_nodes [of fuel s p s'] DelFromSceneManagerLocked_nodes [of fuel s p s']
  by (simp_all add: nodes_all_def AddToSceneManager_def DelFromSceneManager_def)

lemma operations_preserve_node_invariant:
  assumes st: "field_stable M P"
  shows "operations_relate M cbs is_shadow_map (\<lambda>s s'. nodes_all P s \<longrightarrow> nodes_all P s')"
  unfolding operations_relate_def
  apply (intro allI conjI impI)
  subgoal by (rule preserve_alloc) (simp_all add: field_stableD(2) [OF st])
  subgoal by (rule preserve_alloc) (simp_all add: preserve_named [OF st])
  subgoal by (rule preserve_SceneNode_with_renderable [OF st])
  subgoal by (rule preserve_simple(1) [OF st])
  subgoal by (rule preserve_simple(2) [OF st])
  subgoal by (rule preserve_simple(3) [OF st])
  subgoal by (rule preserve_simple(4) [OF st])
  subgoal by (rule preserve_simple(5) [OF st])
  subgoal by (rule preserve_AddRenderable [OF st])
  subgoal by (rule preserve_DelRenderable [OF st])
  subgoal by (rule preserve_simple(6) [OF st])
  subgoal by (rule preserve_simple(7) [OF st])
  subgoal by (rule preserve_simple(8) [OF st])
  subgoal by (rule preserve_simple(9) [OF st])
  subgoal by (rule preserve_UpdatePosBound [OF st])
  subgoal by (rule preserve_UpdateAbsModelMatrix [OF st])
  subgoal by (rule preserve_Visible_set [OF st])
  subgoal by (rule preserve_renderable_setters(1))
  subgoal by (rule preserve_renderable_setters(2))
  subgoal by (rule preserve_Pass [OF st])
  subgoal by (rule preserve_OnAttachRenderable [OF st])
  subgoal by (rule preserve_scene_manager(2))
  subgoal by (rule preserve_scene_manager(1))
  subgoal by (rule preserve_scene_manager(4))
  subgoal by (rule preserve_scene_manager(3))
  subgoal for s p c r a nm so mat vm uf i sel ty vis add fuel u v
    by (rule preserve_SubThreadUpdate [where cbs = cbs]) blast+
  subgoal for s p c r a nm so mat vm uf i sel ty vis add fuel u v s' b
    by (rule preserve_MainThreadUpdate [OF st, where cbs = cbs and s = s and fuel = fuel and p = p
          and u = u and v = v and b = b]) blast+
  done

lemma length_erase_at:
  "length (erase_at i xs) = (if i < length xs then length xs - 1 else length xs)"
  by (auto simp: erase_at_def)

lemma ready_lockstep_nodes_all:
  "ready_lockstep s = nodes_all (\<lambda>n. length (renderables_hw_res_ready n) = length (renderables n)) s"
  by (simp add: ready_lockstep_def nodes_all_def)

lemma field_stable_ready:
  "field_stable M (\<lambda>n. length (renderables_hw_res_ready n) = length (renderables n))"
  unfolding field_stable_def
  by (intro conjI allI impI) (simp_all add: aspects_def SceneNode_init_def length_erase_at)

lemma tracks_bound_Invisible:
  assumes "a AND NOT SOA_Invisible = b AND NOT SOA_Invisible"
  shows "tracks_bound a = tracks_bound b"
proof -
  have o: "NOT SOA_Invisible AND SOA_Overlay = SOA_Overlay"
    and c: "NOT SOA_Invisible AND (SOA_Cullable OR SOA_Moveable) = SOA_Cullable OR SOA_Moveable"
    by (simp_all add: SOA_Invisible_def SOA_Overlay_def SOA_Cullable_def SOA_Moveable_def)
  have "x AND SOA_Overlay = (x AND NOT SOA_Invisible) AND SOA_Overlay"
    "x AND (SOA_Cullable OR SOA_Moveable) = (x AND NOT SOA_Invisible) AND (SOA_Cullable OR SOA_Moveable)"
    for x :: "32 word"
    by (simp_all only: and.assoc o c)
  from this [of a] this [of b] assms show ?thesis by (simp add: tracks_bound_def)
qed

lemma bound_presence_nodes_all:
  "bound_presence s = nodes_all (\<lambda>n. (pos_aabb_os n \<noteq> None \<longleftrightarrow> tracks_bound (attrib n)) \<and>
                                     (pos_aabb_ws n \<noteq> None \<longleftrightarrow> tracks_bound (attrib n))) s"
  by (simp add: bound_presence_def nodes_all_def)

lemma field_stable_bound:
  "field_stable M (\<lambda>n. (pos_aabb_os n \<noteq> None \<longleftrightarrow> tracks_bound (attrib n)) \<and>
                        (pos_aabb_ws n \<noteq> None \<longleftrightarrow> tracks_bound (attrib n)))"
  unfolding field_stable_def
proof (intro conjI allI impI)
  fix n n' :: "'a SceneNode"
  assume a: "aspects n' = aspects n"
    and p: "(pos_aabb_os n \<noteq> None \<longleftrightarrow> tracks_bound (attrib n)) \<and>
            (pos_aabb_ws n \<noteq> None \<longleftrightarrow> tracks_bound (attrib n))"
  from a have "tracks_bound (attrib n') = tracks_bound (attrib n)"
    by (intro tracks_bound_Invisible) (simp add: aspects_def)
  moreover from a have "(pos_aabb_os n' = None) = (pos_aabb_os n = None)"
    "(pos_aabb_ws n' = None) = (pos_aabb_ws n = None)" by (simp_all add: aspects_def)
  ultimately show "pos_aabb_os n' \<noteq> None \<longleftrightarrow> tracks_bound (attrib n')"
    "pos_aabb_ws n' \<noteq> None \<longleftrightarrow> tracks_bound (attrib n')" using p by simp_all
qed (simp_all add: SceneNode_init_def)

lemma presence_kept_refl: "presence_kept s s"
  by (simp add: presence_kept_def)

lemma presence_kept_trans:
  "presence_kept a b \<Longrightarrow> presence_kept b c \<Longrightarrow> presence_kept a c"
  unfolding presence_kept_def by (meson order_trans less_le_trans)

lemma presence_kept_aspects:
  "next_node s' = next_node s \<Longrightarrow> (\<And>q. aspects (nodes s' q) = aspects (nodes s q)) \<Longrightarrow>
   presence_kept s s'"
  by (simp add: presence_kept_def aspects_def)

lemma presence_kept_nodes:
  "next_node s' = next_node s \<Longrightarrow> nodes s' = nodes s \<Longrightarrow> presence_kept s s'"
  by (simp add: presence_kept_def)

lemma presence_kept_simple:
  shows "presence_kept s (fst (alloc_node s n))"
    and "presence_kept s (Name_set s p nm)"
    and "presence_kept s (Parent_set s p so)"
    and "presence_kept s (AddChild s p c)"
    and "presence_kept s (RemoveChild s p c)"
    and "presence_kept s (ClearChildren s p)"
    and "presence_kept s (AddRenderable s p r)"
    and "presence_kept s (ModelMatrix_set s p mat)"
    and "presence_kept s (VisibleMark_set s p vm)"
    and "presence_kept s (BindSubThreadUpdateFunc s p uf)"
    and "presence_kept s (BindMainThreadUpdateFunc s p uf)"
  by (simp_all add: presence_kept_def alloc_node_def upd_node_def Name_set_def Parent_set_def
        AddChild_def RemoveChild_def ClearChildren_def AddRenderable_def ModelMatrix_set_def
        VisibleMark_set_def BindSubThreadUpdateFunc_def BindMainThreadUpdateFunc_def Let_def)

lemma presence_kept_DelRenderable:
  "DelRenderable s p r = Inr s' \<Longrightarrow> presence_kept s s'"
  by (auto simp: DelRenderable_def presence_kept_def upd_node_def Let_def split: if_splits)

lemma presence_kept_attach: "attach_frame s s' \<Longrightarrow> presence_kept s s'"
proof -
  assume f: "attach_frame s s'"
  have "pos_aabb_os (nodes s' q) = pos_aabb_os (nodes s q) \<and>
        pos_aabb_ws (nodes s' q) = pos_aabb_ws (nodes s q)" if "q < next_node s" for q
  proof -
    from f that have e: "nodes s' q = (nodes s q)\<lparr> children := children (nodes s' q) \<rparr>"
      by (simp add: attach_frame_def)
    from arg_cong [OF e, of pos_aabb_os] arg_cong [OF e, of pos_aabb_ws] show ?thesis by simp
  qed
  then show ?thesis using f by (simp add: presence_kept_def attach_frame_def)
qed

lemma presence_kept_recursive:
  shows "UpdatePosBound fuel s p = Some (Inr s') \<Longrightarrow> presence_kept s s'"
    and "UpdateAbsModelMatrix M fuel s p = Some (Inr s') \<Longrightarrow> presence_kept s s'"
    and "Visible_set fuel s p vis = Some s' \<Longrightarrow> presence_kept s s'"
    and "OnAttachRenderable M fuel s p add = Some s' \<Longrightarrow> presence_kept s s'"
proof -
  assume "UpdatePosBound fuel s p = Some (Inr s')"
  note f = UpdatePosBound_frame [OF this]
  show "presence_kept s s'"
  proof (rule presence_kept_aspects)
    show "next_node s' = next_node s" using f by (simp add: bound_frame_def)
    show "aspects (nodes s' q) = aspects (nodes s q)" for q using f by (rule bound_frame_aspects)
  qed
next
  assume "UpdateAbsModelMatrix M fuel s p = Some (Inr s')"
  from UpdateAbsModelMatrix_keeps [OF this] show "presence_kept s s'"
    by (intro presence_kept_aspects) simp_all
next
  assume "Visible_set fuel s p vis = Some s'"
  note f = Visible_set_frame [OF this]
  show "presence_kept s s'"
  proof (rule presence_kept_aspects)
    show "next_node s' = next_node s" using f by (simp add: vis_frame_def)
    show "aspects (nodes s' q) = aspects (nodes s q)" for q using f by (rule vis_frame_aspects)
  qed
next
  assume "OnAttachRenderable M fuel s p add = Some s'"
  from OnAttachRenderable_frame [OF this] show "presence_kept s s'" by (rule presence_kept_attach)
qed

lemma presence_kept_setters:
  shows "SelectMode_set s p sel = Some (Inr s') \<Longrightarrow> presence_kept s s'"
    and "ObjectID_set s p i = Some (Inr s') \<Longrightarrow> presence_kept s s'"
proof -
  assume "SelectMode_set s p sel = Some (Inr s')"
  then have "for_each (set_renderable_select sel) (renderables (nodes s p)) s = Some (Inr s')"
    by (simp add: SelectMode_set_def)
  from for_each_rends_only [OF this set_renderable_select_step]
  show "presence_kept s s'" by (intro presence_kept_nodes) simp_all
next
  assume "ObjectID_set s p i = Some (Inr s')"
  then have "for_each (set_renderable_id i) (renderables (nodes s p)) s = Some (Inr s')"
    by (simp add: ObjectID_set_def)
  from for_each_rends_only [OF this set_renderable_id_step]
  show "presence_kept s s'" by (intro presence_kept_nodes) simp_all
qed

lemma presence_kept_Pass:
  assumes run: "Pass is_shadow_map fuel s p ty = Some (Inr s')"
  shows "presence_kept s s'"
proof -
  from run [unfolded Pass_def bind_run_Inr]
  obtain s1 where s1: "for_each (set_renderable_pass ty) (renderables (nodes s p)) s = Some (Inr s1)"
    and rest: "(if attrib (nodes s1 p) AND SOA_NotCastShadow \<noteq> 0
              then (case Visible_set fuel s1 p (\<not> is_shadow_map ty) of
                      None \<Rightarrow> None
                    | Some s2 \<Rightarrow> Some (Inr s2))
              else Some (Inr s1)) = (Some (Inr s') :: (error + _) option)"
    by blast
  from for_each_rends_only [OF s1 set_renderable_pass_step]
  have k1: "presence_kept s s1" by (intro presence_kept_nodes) simp_all
  show ?thesis
  proof (cases "attrib (nodes s1 p) AND SOA_NotCastShadow \<noteq> 0")
    case False
    with rest k1 show ?thesis by simp
  next
    case True
    with rest have "Visible_set fuel s1 p (\<not> is_shadow_map ty) = Some s'"
      by (simp split: option.splits)
    from k1 presence_kept_recursive(3) [OF this] show ?thesis by (rule presence_kept_trans)
  qed
qed

lemma presence_kept_SceneNode_with_renderable:
  assumes run: "SceneNode_with_renderable M fuel s r a = Some (s', q)"
  shows "presence_kept s s'"
proof -
  define s0 where "s0 = fst (alloc_node s (SceneNode_init M a))"
  have al: "alloc_node s (SceneNode_init M a) = (s0, next_node s)"
    by (simp add: s0_def alloc_node_def)
  from run have att: "OnAttachRenderable M fuel (AddRenderable s0 (next_node s) r) (next_node s) False = Some s'"
    by (auto simp: SceneNode_with_renderable_def al split: option.splits)
  have "presence_kept s s0" unfolding s0_def by (rule presence_kept_simple)
  moreover have "presence_kept s0 (AddRenderable s0 (next_node s) r)" by (rule presence_kept_simple)
  moreover note presence_kept_recursive(4) [OF att]
  ultimately show ?thesis using presence_kept_trans by blast
qed

lemma presence_kept_scene_manager:
  shows "AddToSceneManagerLocked fuel s p = Some s' \<Longrightarrow> presence_kept s s'"
    and "AddToSceneManager fuel s p = Some s' \<Longrightarrow> presence_kept s s'"
    and "DelFromSceneManagerLocked fuel s p = Some s' \<Longrightarrow> presence_kept s s'"
    and "DelFromSceneManager fuel s p = Some s' \<Longrightarrow> presence_kept s s'"
  using AddToSceneManagerLocked_nodes [of fuel s p s'] DelFromSceneManagerLocked_nodes [of fuel s p s']
  by (simp_all add: presence_kept_def AddToSceneManager_def DelFromSceneManager_def)

lemma presence_kept_SubThreadUpdate:
  assumes cb: "\<And>f x q t dt. presence_kept x (cbs f x q t dt)"
  shows "presence_kept s (SubThreadUpdate cbs s p u v)"
  unfolding SubThreadUpdate_def using cb by (simp add: presence_kept_refl split: option.splits)

lemma presence_kept_MainThreadUpdate:
  assumes cb: "\<And>f x q t dt. presence_kept x (cbs f x q t dt)"
      and run: "MainThreadUpdate M cbs fuel s p u v = Some (Inr (s', b))"
  shows "presence_kept s s'"
proof -
  from run obtain fl s3 where
    mid: "(let s1 = upd_node s p (\<lambda>n. n\<lparr> renderables_hw_res_ready := fl \<rparr>)
             in if b
                then (case OnAttachRenderable M fuel s1 p False of
                        None \<Rightarrow> None
                      | Some s2 \<Rightarrow> UpdateAbsModelMatrix M fuel s2 p)
                else Some (Inr s1)) = Some (Inr s3)"
    and fin: "s' = run_main_thread_update_func cbs s3 p u v"
    by (auto simp: MainThreadUpdate_def bind_run_Inr split: sum.splits)
  define s1 where "s1 = upd_node s p (\<lambda>n. n\<lparr> renderables_hw_res_ready := fl \<rparr>)"
  have k1: "presence_kept s s1" by (simp add: s1_def presence_kept_def upd_node_def)
  have k3: "presence_kept s s3"
  proof (cases b)
    case False
    with mid k1 show ?thesis by (simp add: s1_def)
  next
    case True
    with mid obtain s2 where s2: "OnAttachRenderable M fuel s1 p False = Some s2"
      and ab: "UpdateAbsModelMatrix M fuel s2 p = Some (Inr s3)"
      by (auto simp: s1_def Let_def split: option.splits)
    from k1 presence_kept_recursive(4) [OF s2] presence_kept_recursive(2) [OF ab]
    show ?thesis using presence_kept_trans by blast
  qed
  have "presence_kept s3 s'"
    unfolding fin run_main_thread_update_func_def
    using cb by (simp add: presence_kept_refl split: option.splits)
  with k3 show ?thesis by (rule presence_kept_trans)
qed

lemma operations_keep_presence:
  "operations_relate M cbs is_shadow_map presence_kept"
  unfolding operations_relate_def
  apply (intro allI conjI impI)
  subgoal by (rule presence_kept_simple(1))
  subgoal by (rule presence_kept_simple(1))
  subgoal by (rule presence_kept_SceneNode_with_renderable)
  subgoal by (rule presence_kept_simple(2))
  subgoal by (rule presence_kept_simple(3))
  subgoal by (rule presence_kept_simple(4))
  subgoal by (rule presence_kept_simple(5))
  subgoal by (rule presence_kept_simple(6))
  subgoal by (rule presence_kept_simple(7))
  subgoal by (rule presence_kept_DelRenderable)
  subgoal by (rule presence_kept_simple(8))
  subgoal by (rule presence_kept_simple(9))
  subgoal by (rule presence_kept_simple(10))
  subgoal by (rule presence_kept_simple(11))
  subgoal by (rule presence_kept_recursive(1))
  subgoal by (rule presence_kept_recursive(2))
  subgoal by (rule presence_kept_recursive(3))
  subgoal by (rule presence_kept_setters(1))
  subgoal by (rule presence_kept_setters(2))
  subgoal by (rule presence_kept_Pass)
  subgoal by (rule presence_kept_recursive(4))
  subgoal by (rule presence_kept_scene_manager(2))
  subgoal by (rule presence_kept_scene_manager(1))
  subgoal by (rule presence_kept_scene_manager(4))
  subgoal by (rule presence_kept_scene_manager(3))
  subgoal for s p c r a nm so mat vm uf i sel ty vis add fuel u v
    by (rule presence_kept_SubThreadUpdate [where cbs = cbs]) blast
  subgoal for s p c r a nm so mat vm uf i sel ty vis add fuel u v s' b
    by (rule presence_kept_MainThreadUpdate [where cbs = cbs and s = s and fuel = fuel and p = p
          and u = u and v = v and b = b and M = M]) blast+
  done

lemma zip_erase_at:
  "length xs = length ys \<Longrightarrow> zip (erase_at i xs) (erase_at i ys) = erase_at i (zip xs ys)"
  by (simp add: erase_at_def take_zip drop_zip)

lemma fresh_store_invariant:
  assumes "field_stable M P" and "\<forall>q. \<exists>a. nodes s q = SceneNode_init M a"
  shows "nodes_all P s"
  unfolding nodes_all_def
proof
  fix q
  from assms(2) obtain a where "nodes s q = SceneNode_init M a" by blast
  then show "P (nodes s q)" using field_stableD(2) [OF assms(1)] by simp
qed

text \<open>
  C8. A store of nodes fresh from the constructor has the two lists of every node in
  lock-step, and every operation keeps them so. \<^verbatim>\<open>DelRenderable\<close> of a drawable that is
  present returns, and the list of (drawable, flag) pairs afterwards is the list before
  with the pair at the position of the removed drawable erased.
\<close>

theorem readiness_flags_lockstep:
  "((\<forall>q. \<exists>a. nodes s0 q = SceneNode_init M a) \<longrightarrow> ready_lockstep s0) \<and>
   operations_relate M cbs is_shadow_map (\<lambda>s s'. ready_lockstep s \<longrightarrow> ready_lockstep s') \<and>
   (ready_lockstep s \<and> r \<in> set (renderables (nodes s p)) \<longrightarrow>
      (\<exists>s'. DelRenderable s p r = Inr s' \<and>
            renderables (nodes s p) ! find_index (renderables (nodes s p)) r = r \<and>
            zip (renderables (nodes s' p)) (renderables_hw_res_ready (nodes s' p)) =
              erase_at (find_index (renderables (nodes s p)) r)
                (zip (renderables (nodes s p)) (renderables_hw_res_ready (nodes s p)))))"
proof (intro conjI impI)
  assume "\<forall>q. \<exists>a. nodes s0 q = SceneNode_init M a"
  then show "ready_lockstep s0"
    unfolding ready_lockstep_nodes_all by (rule fresh_store_invariant [OF field_stable_ready])
next
  show "operations_relate M cbs is_shadow_map (\<lambda>s s'. ready_lockstep s \<longrightarrow> ready_lockstep s')"
    unfolding ready_lockstep_nodes_all
    by (rule operations_preserve_node_invariant [OF field_stable_ready])
next
  assume a: "ready_lockstep s \<and> r \<in> set (renderables (nodes s p))"
  define i where "i = find_index (renderables (nodes s p)) r"
  from a have len: "length (renderables_hw_res_ready (nodes s p)) = length (renderables (nodes s p))"
    by (simp add: ready_lockstep_def)
  from a have i: "i < length (renderables (nodes s p))" and nth: "renderables (nodes s p) ! i = r"
    unfolding i_def by (simp_all add: find_index_present find_index_nth)
  define s' where "s' = upd_node s p (\<lambda>n. n\<lparr> renderables := erase_at i (renderables n),
                       renderables_hw_res_ready := erase_at i (renderables_hw_res_ready n),
                       pos_aabb_dirty := True \<rparr>)"
  have run: "DelRenderable s p r = Inr s'"
    using i len by (simp add: DelRenderable_def Let_def i_def [symmetric] s'_def)
  have "zip (renderables (nodes s' p)) (renderables_hw_res_ready (nodes s' p)) =
        erase_at i (zip (renderables (nodes s p)) (renderables_hw_res_ready (nodes s p)))"
    using len by (simp add: s'_def upd_node_def zip_erase_at)
  with run nth show "\<exists>s'. DelRenderable s p r = Inr s' \<and>
            renderables (nodes s p) ! find_index (renderables (nodes s p)) r = r \<and>
            zip (renderables (nodes s' p)) (renderables_hw_res_ready (nodes s' p)) =
              erase_at (find_index (renderables (nodes s p)) r)
                (zip (renderables (nodes s p)) (renderables_hw_res_ready (nodes s p)))"
    unfolding i_def by blast
qed

text \<open>
  C9. The constructor gives a node a local and a world bound exactly when the attribute
  mask has no overlay bit and has the cullable or the moveable bit; a node that is
  neither cullable nor moveable gets none. Every operation keeps the invariant that a
  bound is present exactly when the mask passes that test, and leaves the presence of
  the bounds of every allocated node as it was.
\<close>

theorem bound_presence_fixed_at_construction:
  "(pos_aabb_os (SceneNode_init M a) \<noteq> None \<longleftrightarrow>
      a AND SOA_Overlay = 0 \<and> a AND (SOA_Cullable OR SOA_Moveable) \<noteq> 0) \<and>
   (pos_aabb_ws (SceneNode_init M a) \<noteq> None \<longleftrightarrow>
      a AND SOA_Overlay = 0 \<and> a AND (SOA_Cullable OR SOA_Moveable) \<noteq> 0) \<and>
   (a AND SOA_Cullable = 0 \<and> a AND SOA_Moveable = 0 \<longrightarrow>
      pos_aabb_os (SceneNode_init M a) = None \<and> pos_aabb_ws (SceneNode_init M a) = None) \<and>
   ((\<forall>q. \<exists>a. nodes s0 q = SceneNode_init M a) \<longrightarrow> bound_presence s0) \<and>
   operations_relate M cbs is_shadow_map (\<lambda>s s'. bound_presence s \<longrightarrow> bound_presence s') \<and>
   operations_relate M cbs is_shadow_map presence_kept"
proof (intro conjI impI)
  show "pos_aabb_os (SceneNode_init M a) \<noteq> None \<longleftrightarrow>
      a AND SOA_Overlay = 0 \<and> a AND (SOA_Cullable OR SOA_Moveable) \<noteq> 0"
    "pos_aabb_ws (SceneNode_init M a) \<noteq> None \<longleftrightarrow>
      a AND SOA_Overlay = 0 \<and> a AND (SOA_Cullable OR SOA_Moveable) \<noteq> 0"
    by (simp_all add: SceneNode_init_def tracks_bound_def)
next
  assume "a AND SOA_Cullable = 0 \<and> a AND SOA_Moveable = 0"
  then have "a AND (SOA_Cullable OR SOA_Moveable) = 0" by (simp add: bit.conj_disj_distrib)
  then show "pos_aabb_os (SceneNode_init M a) = None" "pos_aabb_ws (SceneNode_init M a) = None"
    by (simp_all add: SceneNode_init_def tracks_bound_def)
next
  assume "\<forall>q. \<exists>a. nodes s0 q = SceneNode_init M a"
  then show "bound_presence s0"
    unfolding bound_presence_nodes_all by (rule fresh_store_invariant [OF field_stable_bound])
next
  show "operations_relate M cbs is_shadow_map (\<lambda>s s'. bound_presence s \<longrightarrow> bound_presence s')"
    unfolding bound_presence_nodes_all
    by (rule operations_preserve_node_invariant [OF field_stable_bound])
next
  show "operations_relate M cbs is_shadow_map presence_kept" by (rule operations_keep_presence)
qed

subsection \<open>The invariants on the concrete scenes\<close>

lemma two_cubes_nodes_other: "q \<noteq> 0 \<Longrightarrow> nodes two_cubes_scene q = SceneNode_init exact_math 0"
  by (simp add: two_cubes_scene_def empty_scene_def alloc_node_def AddRenderable_def upd_node_def Let_def)

lemma ready_scene_lockstep: "ready_lockstep ready_scene"
  unfolding ready_lockstep_def
proof
  fix q
  show "length (renderables_hw_res_ready (nodes ready_scene q)) = length (renderables (nodes ready_scene q))"
    by (cases "q = 0") (simp_all add: ready_scene_def upd_node_def two_cubes_nodes two_cubes_nodes_other
        SceneNode_init_def)
qed

lemma operations_relateD:
  assumes op: "operations_relate M cbs is_shadow_map R"
  shows "R s (fst (alloc_node s (SceneNode_init M a)))"
    and "R s (AddRenderable s p r)"
    and "DelRenderable s p r = Inr s' \<Longrightarrow> R s s'"
    and "Visible_set fuel s p vis = Some s' \<Longrightarrow> R s s'"
proof -
  from op have th: "R s (fst (alloc_node s (SceneNode_init M a))) \<and> R s (AddRenderable s p r) \<and>
     (\<forall>s'. DelRenderable s p r = Inr s' \<longrightarrow> R s s') \<and>
     (\<forall>s'. Visible_set fuel s p vis = Some s' \<longrightarrow> R s s')"
    unfolding operations_relate_def
    by (elim allE [where x = s] allE [where x = p] allE [where x = r] allE [where x = a]
          allE [where x = vis] allE [where x = fuel]) simp
  show "R s (fst (alloc_node s (SceneNode_init M a)))" using th by blast
  show "R s (AddRenderable s p r)" using th by blast
  show "R s s'" if "DelRenderable s p r = Inr s'" using th that by blast
  show "R s s'" if "Visible_set fuel s p vis = Some s'" using th that by blast
qed

theorem readiness_flags_lockstep_witness:
  "ready_lockstep ready_scene \<and> Some 0 \<in> set (renderables (nodes ready_scene 0)) \<and>
   zip (renderables (nodes ready_scene 0)) (renderables_hw_res_ready (nodes ready_scene 0)) =
     [(Some 0, True), (Some 1, False)] \<and>
   (\<exists>s'. DelRenderable ready_scene 0 (Some 0) = Inr s' \<and>
         zip (renderables (nodes s' 0)) (renderables_hw_res_ready (nodes s' 0)) = [(Some 1, False)] \<and>
         ready_lockstep s') \<and>
   ready_lockstep (AddRenderable ready_scene 0 (Some 2))"
proof -
  note th = readiness_flags_lockstep
    [of empty_scene exact_math no_callbacks "\<lambda>_. False" ready_scene "Some 0" 0]
  have z: "zip (renderables (nodes ready_scene 0)) (renderables_hw_res_ready (nodes ready_scene 0)) =
     [(Some 0, True), (Some 1, False)]"
    and r: "Some 0 \<in> set (renderables (nodes ready_scene 0))"
    and fi: "find_index (renderables (nodes ready_scene 0)) (Some 0) = 0"
    by (simp_all add: ready_scene_def upd_node_def two_cubes_nodes find_index_def)
  from th ready_scene_lockstep r obtain s' where
    run: "DelRenderable ready_scene 0 (Some 0) = Inr s'"
    and zs: "zip (renderables (nodes s' 0)) (renderables_hw_res_ready (nodes s' 0)) =
              erase_at (find_index (renderables (nodes ready_scene 0)) (Some 0))
                (zip (renderables (nodes ready_scene 0)) (renderables_hw_res_ready (nodes ready_scene 0)))"
    by blast
  from zs have z': "zip (renderables (nodes s' 0)) (renderables_hw_res_ready (nodes s' 0)) = [(Some 1, False)]"
    by (simp add: z fi erase_at_def)
  from th have ops: "operations_relate exact_math no_callbacks (\<lambda>_. False)
      (\<lambda>s s'. ready_lockstep s \<longrightarrow> ready_lockstep s')" by blast
  from operations_relateD(3) [OF ops run] ready_scene_lockstep have l': "ready_lockstep s'"
    by simp
  from operations_relateD(2) [OF ops, of ready_scene 0 "Some 2"] ready_scene_lockstep
  have la: "ready_lockstep (AddRenderable ready_scene 0 (Some 2))" by simp
  show ?thesis using ready_scene_lockstep r z run z' l' la by blast
qed


lemma two_cubes_built:
  "two_cubes_scene =
     AddRenderable (AddRenderable
       (fst (alloc_node (empty_scene\<lparr> rends := (rends empty_scene)
                 (0 := drawable (cube (- 1) 1) False [], 1 := drawable (cube 0 2) False []) \<rparr>)
              (SceneNode_init exact_math SOA_Cullable))) 0 (Some 0)) 0 (Some 1)"
  by (simp add: two_cubes_scene_def Let_def alloc_node_def empty_scene_def)

theorem bound_presence_fixed_at_construction_witness:
  "pos_aabb_os (SceneNode_init exact_math SOA_Cullable) \<noteq> None \<and>
   pos_aabb_ws (SceneNode_init exact_math SOA_Cullable) \<noteq> None \<and>
   SOA_Overlay AND SOA_Cullable = 0 \<and> SOA_Overlay AND SOA_Moveable = 0 \<and>
   pos_aabb_os (SceneNode_init exact_math SOA_Overlay) = None \<and>
   pos_aabb_ws (SceneNode_init exact_math SOA_Overlay) = None \<and>
   bound_presence two_cubes_scene \<and>
   (\<exists>s'. Visible_set 1 two_cubes_scene 0 False = Some s' \<and> bound_presence s' \<and>
         presence_kept two_cubes_scene s' \<and> pos_aabb_os (nodes s' 0) \<noteq> None \<and>
         pos_aabb_ws (nodes s' 0) \<noteq> None)"
proof -
  define s0 where "s0 = empty_scene\<lparr> rends := (rends empty_scene)
                 (0 := drawable (cube (- 1) 1) False [], 1 := drawable (cube 0 2) False []) \<rparr>"
  note c = bound_presence_fixed_at_construction
    [of exact_math SOA_Cullable s0 no_callbacks "\<lambda>_. False"]
  note o = bound_presence_fixed_at_construction
    [of exact_math SOA_Overlay s0 no_callbacks "\<lambda>_. False"]
  have cm: "SOA_Cullable AND SOA_Overlay = 0" "SOA_Cullable AND (SOA_Cullable OR SOA_Moveable) \<noteq> 0"
    and om: "SOA_Overlay AND SOA_Cullable = 0" "SOA_Overlay AND SOA_Moveable = 0"
    by (simp_all add: SOA_Cullable_def SOA_Overlay_def SOA_Moveable_def)
  from c cm have c1: "pos_aabb_os (SceneNode_init exact_math SOA_Cullable) \<noteq> None"
    "pos_aabb_ws (SceneNode_init exact_math SOA_Cullable) \<noteq> None" by blast+
  from o om have o1: "pos_aabb_os (SceneNode_init exact_math SOA_Overlay) = None"
    "pos_aabb_ws (SceneNode_init exact_math SOA_Overlay) = None" by blast+
  have fresh: "\<forall>q. \<exists>a. nodes s0 q = SceneNode_init exact_math a"
    by (auto simp: s0_def empty_scene_def)
  with c have b0: "bound_presence s0" by blast
  from c have inv: "operations_relate exact_math no_callbacks (\<lambda>_. False)
      (\<lambda>s s'. bound_presence s \<longrightarrow> bound_presence s')"
    and keep: "operations_relate exact_math no_callbacks (\<lambda>_. False) presence_kept" by blast+
  have b1: "bound_presence (fst (alloc_node s0 (SceneNode_init exact_math SOA_Cullable)))"
    using operations_relateD(1) [OF inv, of s0 SOA_Cullable] b0 by simp
  have b2: "bound_presence (AddRenderable (fst (alloc_node s0 (SceneNode_init exact_math SOA_Cullable))) 0 (Some 0))"
    using operations_relateD(2) [OF inv] b1 by simp
  have bt: "bound_presence two_cubes_scene"
    unfolding two_cubes_built s0_def [symmetric]
    using operations_relateD(2) [OF inv] b2 by simp
  have "\<exists>s'. Visible_set 1 two_cubes_scene 0 False = Some s'"
    by (simp add: two_cubes_nodes SceneNode_init_def upd_node_def Let_def)
  then obtain s' where run: "Visible_set 1 two_cubes_scene 0 False = Some s'" by blast
  from operations_relateD(4) [OF inv run] bt have bs: "bound_presence s'" by simp
  from operations_relateD(4) [OF keep run] have ks: "presence_kept two_cubes_scene s'" .
  have "next_node two_cubes_scene = 1"
    by (simp add: two_cubes_scene_def Let_def alloc_node_def empty_scene_def AddRenderable_def upd_node_def)
  moreover have "pos_aabb_os (nodes two_cubes_scene 0) \<noteq> None" "pos_aabb_ws (nodes two_cubes_scene 0) \<noteq> None"
    by (simp_all add: two_cubes_nodes SceneNode_init_def tracks_Cullable)
  ultimately have ps: "pos_aabb_os (nodes s' 0) \<noteq> None" "pos_aabb_ws (nodes s' 0) \<noteq> None"
    using ks by (simp_all add: presence_kept_def)
  show ?thesis using c1 om o1 bt run bs ks ps by blast
qed

subsection \<open>The readiness scan of the main-thread update\<close>

lemma scan_ready_mono:
  "scan_ready R rs i fl b = Inr (fl', b') \<Longrightarrow> k < length fl \<Longrightarrow> fl ! k \<Longrightarrow> fl' ! k"
proof (induction R rs i fl b rule: scan_ready.induct)
  case (3 R r rs i ready refreshed)
  show ?case
  proof (cases "\<not> ready ! i \<and> HWResourceReady (R r)")
    case True
    with "3.prems" have run: "scan_ready R rs (Suc i) (ready[i := True]) True = Inr (fl', b')"
      and i: "i < length ready" by (auto split: if_splits)
    have "(ready[i := True]) ! k" using "3.prems"(2,3) i by (cases "i = k") simp_all
    with "3.IH"(1) [OF i True run] "3.prems"(2) show ?thesis by simp
  next
    case False
    with "3.prems" have run: "scan_ready R rs (Suc i) ready refreshed = Inr (fl', b')"
      and i: "i < length ready" by (auto split: if_splits)
    from "3.IH"(2) [OF i False run] "3.prems"(2,3) show ?thesis by simp
  qed
qed auto

lemma scan_ready_refreshed:
  "scan_ready R rs i fl b = Inr (fl', b') \<Longrightarrow>
   b' \<longleftrightarrow> b \<or> (\<exists>j r. j < length rs \<and> rs ! j = Some r \<and> \<not> fl ! (i + j) \<and> HWResourceReady (R r))"
proof (induction R rs i fl b rule: scan_ready.induct)
  case (1 R i ready refreshed)
  then show ?case by simp
next
  case (2 R rs i ready refreshed)
  have "(\<exists>j r. j < length (None # rs) \<and> (None # rs) ! j = Some r \<and> \<not> ready ! (i + j) \<and> HWResourceReady (R r))
      \<longleftrightarrow> (\<exists>j r. j < length rs \<and> rs ! j = Some r \<and> \<not> ready ! (Suc i + j) \<and> HWResourceReady (R r))"
    (is "?L \<longleftrightarrow> ?R")
  proof
    assume ?L
    then obtain j r where j: "j < length (None # rs)" "(None # rs) ! j = Some r"
      "\<not> ready ! (i + j)" "HWResourceReady (R r)" by blast
    then obtain j' where "j = Suc j'" by (cases j) auto
    with j show ?R by auto
  next
    assume ?R
    then obtain j r where "j < length rs" "rs ! j = Some r" "\<not> ready ! (Suc i + j)" "HWResourceReady (R r)"
      by blast
    then have "Suc j < length (None # rs) \<and> (None # rs) ! Suc j = Some r \<and> \<not> ready ! (i + Suc j) \<and>
       HWResourceReady (R r)" by simp
    then show ?L by blast
  qed
  with 2 show ?case by simp
next
  case (3 R r rs i ready refreshed)
  show ?case
  proof (cases "\<not> ready ! i \<and> HWResourceReady (R r)")
    case True
    with "3.prems" have run: "scan_ready R rs (Suc i) (ready[i := True]) True = Inr (fl', b')"
      and i: "i < length ready" by (auto split: if_splits)
    from "3.IH"(1) [OF i True run] have "b'" by simp
    moreover have "0 < length (Some r # rs) \<and> (Some r # rs) ! 0 = Some r \<and> \<not> ready ! (i + 0) \<and>
       HWResourceReady (R r)" using True by simp
    ultimately show ?thesis by blast
  next
    case False
    with "3.prems" have run: "scan_ready R rs (Suc i) ready refreshed = Inr (fl', b')"
      and i: "i < length ready" by (auto split: if_splits)
    have "(\<exists>j x. j < length (Some r # rs) \<and> (Some r # rs) ! j = Some x \<and> \<not> ready ! (i + j) \<and> HWResourceReady (R x))
      \<longleftrightarrow> (\<exists>j x. j < length rs \<and> rs ! j = Some x \<and> \<not> ready ! (Suc i + j) \<and> HWResourceReady (R x))"
      (is "?L \<longleftrightarrow> ?R")
    proof
      assume ?L
      then obtain j x where j: "j < length (Some r # rs)" "(Some r # rs) ! j = Some x"
        "\<not> ready ! (i + j)" "HWResourceReady (R x)" by blast
      show ?R
      proof (cases j)
        case 0
        with j False show ?thesis by simp
      next
        case (Suc j')
        with j show ?thesis by auto
      qed
    next
      assume ?R
      then obtain j x where "j < length rs" "rs ! j = Some x" "\<not> ready ! (Suc i + j)" "HWResourceReady (R x)"
        by blast
      then have "Suc j < length (Some r # rs) \<and> (Some r # rs) ! Suc j = Some x \<and> \<not> ready ! (i + Suc j) \<and>
         HWResourceReady (R x)" by simp
      then show ?L by blast
    qed
    with "3.IH"(2) [OF i False run] show ?thesis by simp
  qed
qed

lemma scan_ready_marked:
  "scan_ready R rs i fl b = Inr (fl', b') \<Longrightarrow> j < length rs \<Longrightarrow> rs ! j = Some r \<Longrightarrow>
   HWResourceReady (R r) \<Longrightarrow> fl' ! (i + j)"
proof (induction R rs i fl b arbitrary: j rule: scan_ready.induct)
  case (1 R i ready refreshed)
  then show ?case by simp
next
  case (2 R rs i ready refreshed)
  from "2.prems" obtain j' where j: "j = Suc j'" by (cases j) auto
  with "2.prems" "2.IH" [of j'] show ?case by simp
next
  case (3 R x rs i ready refreshed)
  from "3.prems"(1) have i: "i < length ready" by (auto split: if_splits)
  show ?case
  proof (cases "\<not> ready ! i \<and> HWResourceReady (R x)")
    case True
    with "3.prems" i have run: "scan_ready R rs (Suc i) (ready[i := True]) True = Inr (fl', b')"
      by simp
    show ?thesis
    proof (cases j)
      case 0
      have "(ready[i := True]) ! i" using i by simp
      with scan_ready_mono [OF run, of i] i 0 show ?thesis by simp
    next
      case (Suc j')
      with "3.prems" "3.IH"(1) [OF i True run, of j'] show ?thesis by simp
    qed
  next
    case False
    with "3.prems" i have run: "scan_ready R rs (Suc i) ready refreshed = Inr (fl', b')"
      by simp
    show ?thesis
    proof (cases j)
      case 0
      with "3.prems" False have "ready ! i" by simp
      with scan_ready_mono [OF run, of i] i 0 show ?thesis by simp
    next
      case (Suc j')
      with "3.prems" "3.IH"(2) [OF i False run, of j'] show ?thesis by simp
    qed
  qed
qed

lemma scan_ready_idem:
  "scan_ready R rs i fl b = Inr (fl', b') \<Longrightarrow> scan_ready R rs i fl' b'' = Inr (fl', b'')"
proof (induction R rs i fl b arbitrary: b'' rule: scan_ready.induct)
  case (1 R i ready refreshed)
  then show ?case by simp
next
  case (2 R rs i ready refreshed)
  then show ?case by simp
next
  case (3 R x rs i ready refreshed)
  from "3.prems"(1) have i: "i < length ready" by (auto split: if_splits)
  have len: "length fl' = length ready" using scan_ready_length [OF "3.prems"] .
  show ?case
  proof (cases "\<not> ready ! i \<and> HWResourceReady (R x)")
    case True
    with "3.prems" i have run: "scan_ready R rs (Suc i) (ready[i := True]) True = Inr (fl', b')"
      by simp
    have "(ready[i := True]) ! i" using i by simp
    with scan_ready_mono [OF run, of i] i have "fl' ! i" by simp
    with "3.IH"(1) [OF i True run, of b''] i len show ?thesis by simp
  next
    case False
    with "3.prems" i have run: "scan_ready R rs (Suc i) ready refreshed = Inr (fl', b')"
      by simp
    have "fl' ! i \<or> \<not> HWResourceReady (R x)"
      using False scan_ready_mono [OF run, of i] i by auto
    with "3.IH"(2) [OF i False run, of b''] i len show ?thesis by auto
  qed
qed

lemma scan_ready_cong:
  "(\<And>r. HWResourceReady (R' r) = HWResourceReady (R r)) \<Longrightarrow>
   scan_ready R' rs i fl b = scan_ready R rs i fl b"
  by (induction R rs i fl b rule: scan_ready.induct) simp_all

lemma upd_node_same_ready:
  "renderables_hw_res_ready (nodes s p) = fl \<Longrightarrow>
   upd_node s p (\<lambda>n. n\<lparr> renderables_hw_res_ready := fl \<rparr>) = s"
  by (auto simp: upd_node_def)

lemma attach_frame_fields:
  assumes fr: "attach_frame a b" and q: "q < next_node a"
  shows "renderables (nodes b q) = renderables (nodes a q)"
    and "renderables_hw_res_ready (nodes b q) = renderables_hw_res_ready (nodes a q)"
    and "main_thread_update_func (nodes b q) = main_thread_update_func (nodes a q)"
    and "rends b = rends a"
proof -
  from fr q have eq: "nodes b q = (nodes a q)\<lparr> children := children (nodes b q) \<rparr>"
    by (simp add: attach_frame_def)
  from arg_cong [OF eq, of renderables]
  show "renderables (nodes b q) = renderables (nodes a q)" by simp
  from arg_cong [OF eq, of renderables_hw_res_ready]
  show "renderables_hw_res_ready (nodes b q) = renderables_hw_res_ready (nodes a q)" by simp
  from arg_cong [OF eq, of main_thread_update_func]
  show "main_thread_update_func (nodes b q) = main_thread_update_func (nodes a q)" by simp
  from fr show "rends b = rends a" by (simp add: attach_frame_def)
qed

lemma MainThreadUpdate_steady:
  assumes sc: "scan_ready (rends s) (renderables (nodes s p)) 0 (renderables_hw_res_ready (nodes s p)) False
           = Inr (renderables_hw_res_ready (nodes s p), False)"
  shows "MainThreadUpdate M cbs fuel s p u v =
           Some (Inr (run_main_thread_update_func cbs s p u v, False))"
  unfolding MainThreadUpdate_def by (simp add: sc upd_node_same_ready)

text \<open>
  The readiness transition on the runs that go through. When \<^verbatim>\<open>MainThreadUpdate\<close>
  returns, it returns true exactly when some drawable of the node is not null, is not
  yet marked ready and reports its hardware resources ready. After the call every
  drawable of the node that reports ready is marked, so a repeated call on the
  resulting store, with any recursion bound and any times, returns false and does
  nothing but run the bound callback: no sub-node is expanded a second time. The node
  is allocated, and the callback bound to it, if any, leaves the node's drawables,
  their flags and the readiness reports alone.
\<close>

lemma MainThreadUpdate_one_shot:
  fixes s :: "'m Scene"
  assumes run: "MainThreadUpdate M cbs fuel s p u v = Some (Inr (s', refreshed))"
      and alloc: "p < next_node s"
      and cb: "\<And>f x. main_thread_update_func (nodes s p) = Some f \<Longrightarrow>
                 renderables (nodes (cbs f x p u v) p) = renderables (nodes x p) \<and>
                 renderables_hw_res_ready (nodes (cbs f x p u v) p) = renderables_hw_res_ready (nodes x p) \<and>
                 (\<forall>r. HWResourceReady (rends (cbs f x p u v) r) = HWResourceReady (rends x r))"
  shows "(refreshed \<longleftrightarrow>
            (\<exists>i r. i < length (renderables (nodes s p)) \<and> renderables (nodes s p) ! i = Some r \<and>
                   \<not> renderables_hw_res_ready (nodes s p) ! i \<and> HWResourceReady (rends s r))) \<and>
         (\<forall>i r. i < length (renderables (nodes s p)) \<and> renderables (nodes s p) ! i = Some r \<and>
                   HWResourceReady (rends s r) \<longrightarrow> renderables_hw_res_ready (nodes s' p) ! i) \<and>
         (\<forall>fuel' u' v'. MainThreadUpdate M cbs fuel' s' p u' v' =
                   Some (Inr (run_main_thread_update_func cbs s' p u' v', False)))"
proof -
  from run obtain fl s3 where
    sc: "scan_ready (rends s) (renderables (nodes s p)) 0 (renderables_hw_res_ready (nodes s p)) False
           = Inr (fl, refreshed)"
    and mid: "(let s1 = upd_node s p (\<lambda>n. n\<lparr> renderables_hw_res_ready := fl \<rparr>)
             in if refreshed
                then (case OnAttachRenderable M fuel s1 p False of
                        None \<Rightarrow> None
                      | Some s2 \<Rightarrow> UpdateAbsModelMatrix M fuel s2 p)
                else Some (Inr s1)) = Some (Inr s3)"
    and fin: "s' = run_main_thread_update_func cbs s3 p u v"
    by (auto simp: MainThreadUpdate_def bind_run_Inr split: sum.splits)
  define s1 where "s1 = upd_node s p (\<lambda>n. n\<lparr> renderables_hw_res_ready := fl \<rparr>)"
  have k1: "renderables (nodes s1 p) = renderables (nodes s p)"
    "renderables_hw_res_ready (nodes s1 p) = fl"
    "main_thread_update_func (nodes s1 p) = main_thread_update_func (nodes s p)"
    "rends s1 = rends s" "next_node s1 = next_node s"
    by (simp_all add: s1_def upd_node_def)
  have k3: "renderables (nodes s3 p) = renderables (nodes s p) \<and>
            renderables_hw_res_ready (nodes s3 p) = fl \<and>
            main_thread_update_func (nodes s3 p) = main_thread_update_func (nodes s p) \<and>
            (\<forall>r. HWResourceReady (rends s3 r) = HWResourceReady (rends s r))"
  proof (cases refreshed)
    case False
    with mid have "s3 = s1" by (simp add: s1_def)
    with k1 show ?thesis by simp
  next
    case True
    with mid obtain s2 where s2: "OnAttachRenderable M fuel s1 p False = Some s2"
      and ab: "UpdateAbsModelMatrix M fuel s2 p = Some (Inr s3)"
      by (auto simp: s1_def Let_def split: option.splits)
    from OnAttachRenderable_frame [OF s2] have fr: "attach_frame s1 s2" .
    from alloc k1 have q: "p < next_node s1" by simp
    note f2 = attach_frame_fields [OF fr q]
    from UpdateAbsModelMatrix_keeps [OF ab]
    have f3: "renderables (nodes s3 p) = renderables (nodes s2 p)"
      "renderables_hw_res_ready (nodes s3 p) = renderables_hw_res_ready (nodes s2 p)"
      "main_thread_update_func (nodes s3 p) = main_thread_update_func (nodes s2 p)"
      "\<And>x. HWResourceReady (rends s3 x) = HWResourceReady (rends s2 x)"
      by simp_all
    show ?thesis using f2 f3 k1 by simp
  qed
  have k': "renderables (nodes s' p) = renderables (nodes s p) \<and>
            renderables_hw_res_ready (nodes s' p) = fl \<and>
            (\<forall>r. HWResourceReady (rends s' r) = HWResourceReady (rends s r))"
  proof (cases "main_thread_update_func (nodes s p)")
    case None
    with k3 fin have "s' = s3" by (simp add: run_main_thread_update_func_def)
    with k3 show ?thesis by simp
  next
    case (Some f)
    with k3 fin have "s' = cbs f s3 p u v" by (simp add: run_main_thread_update_func_def)
    with cb [OF Some, of s3] k3 show ?thesis by simp
  qed
  have first: "refreshed \<longleftrightarrow>
            (\<exists>i r. i < length (renderables (nodes s p)) \<and> renderables (nodes s p) ! i = Some r \<and>
                   \<not> renderables_hw_res_ready (nodes s p) ! i \<and> HWResourceReady (rends s r))"
    using scan_ready_refreshed [OF sc] by simp
  have marked: "renderables_hw_res_ready (nodes s' p) ! i"
    if "i < length (renderables (nodes s p))" "renderables (nodes s p) ! i = Some r"
       "HWResourceReady (rends s r)" for i r
    using scan_ready_marked [OF sc that] k' by simp
  have "scan_ready (rends s) (renderables (nodes s p)) 0 fl False = Inr (fl, False)"
    using sc by (rule scan_ready_idem)
  moreover have "scan_ready (rends s') (renderables (nodes s p)) 0 fl False =
      scan_ready (rends s) (renderables (nodes s p)) 0 fl False"
    by (rule scan_ready_cong) (simp add: k')
  ultimately have "scan_ready (rends s') (renderables (nodes s' p)) 0
       (renderables_hw_res_ready (nodes s' p)) False = Inr (renderables_hw_res_ready (nodes s' p), False)"
    using k' by simp
  then have again: "MainThreadUpdate M cbs fuel' s' p u' v' =
                   Some (Inr (run_main_thread_update_func cbs s' p u' v', False))" for fuel' u' v'
    by (rule MainThreadUpdate_steady)
  show ?thesis using first marked again by blast
qed

lemma model_scene_nodes:
  "nodes model_scene 0 = (SceneNode_init exact_math SOA_Cullable)
      \<lparr> renderables := [Some 0], renderables_hw_res_ready := [False] \<rparr>"
  "q \<noteq> 0 \<Longrightarrow> nodes model_scene q = SceneNode_init exact_math 0"
  "next_node model_scene = Suc 0"
  "scene_nodes model_scene = []"
  by (simp_all add: model_scene_def empty_scene_def alloc_node_def AddRenderable_def upd_node_def
      SceneNode_init_def Let_def)

lemma model_scene_rends:
  "rends model_scene 0 = drawable (cube (- 1) 1) True [Some 1, Some 2]"
  "rends model_scene (Suc 0) = drawable (cube (- 1) 0) True []"
  "rends model_scene (Suc (Suc 0)) = drawable (cube 0 1) True []"
  by (simp_all add: model_scene_def empty_scene_def alloc_node_def AddRenderable_def upd_node_def Let_def)

lemma model_scene_run:
  "\<exists>s'. MainThreadUpdate exact_math no_callbacks 3 model_scene 0 0 0 = Some (Inr (s', True)) \<and>
        children (nodes s' 0) = [1, 2]"
  by (simp add: MainThreadUpdate_def numeral_3_eq_3 numeral_2_eq_2 model_scene_nodes model_scene_rends
       drawable_def upd_node_def attach_renderable_def attach_sub_def alloc_node_def AddRenderable_def
       Parent_set_def SceneNode_init_def Let_def tracks_Cullable UpdateAbsModelMatrix_def unite_child_def
       set_renderable_model_def run_main_thread_update_func_def no_callbacks_def)

lemma MainThreadUpdate_one_shot_example:
  "0 < next_node model_scene \<and> renderables (nodes model_scene 0) = [Some 0] \<and>
   renderables_hw_res_ready (nodes model_scene 0) = [False] \<and>
   HWResourceReady (rends model_scene 0) \<and> children (nodes model_scene 0) = [] \<and>
   (\<exists>s'. MainThreadUpdate exact_math no_callbacks 3 model_scene 0 0 0 = Some (Inr (s', True)) \<and>
      children (nodes s' 0) = [1, 2] \<and> renderables_hw_res_ready (nodes s' 0) ! 0 \<and>
      MainThreadUpdate exact_math no_callbacks 3 s' 0 1 1 = Some (Inr (s', False)))"
proof -
  from model_scene_run obtain s' where
    run: "MainThreadUpdate exact_math no_callbacks 3 model_scene 0 0 0 = Some (Inr (s', True))"
    and kids: "children (nodes s' 0) = [1, 2]" by blast
  have alloc: "0 < next_node model_scene" by (simp add: model_scene_nodes)
  have facts: "renderables (nodes model_scene 0) = [Some 0]"
    "renderables_hw_res_ready (nodes model_scene 0) = [False]"
    "HWResourceReady (rends model_scene 0)" "children (nodes model_scene 0) = []"
    by (simp_all add: model_scene_nodes model_scene_rends drawable_def SceneNode_init_def)
  have th: "(\<forall>i r. i < length (renderables (nodes model_scene 0)) \<and>
                renderables (nodes model_scene 0) ! i = Some r \<and>
                HWResourceReady (rends model_scene r) \<longrightarrow> renderables_hw_res_ready (nodes s' 0) ! i) \<and>
         (\<forall>fuel' u' v'. MainThreadUpdate exact_math no_callbacks fuel' s' 0 u' v' =
                   Some (Inr (run_main_thread_update_func no_callbacks s' 0 u' v', False)))"
    using MainThreadUpdate_one_shot [OF run alloc] by (simp add: no_callbacks_def)
  from th facts have marked: "renderables_hw_res_ready (nodes s' 0) ! 0" by simp
  have same: "run_main_thread_update_func no_callbacks s' 0 1 1 = s'"
    by (simp add: run_main_thread_update_func_def no_callbacks_def split: option.splits)
  from th have "MainThreadUpdate exact_math no_callbacks 3 s' 0 1 1 =
       Some (Inr (run_main_thread_update_func no_callbacks s' 0 1 1, False))" by blast
  with same have again: "MainThreadUpdate exact_math no_callbacks 3 s' 0 1 1 = Some (Inr (s', False))"
    by simp
  show ?thesis using alloc facts run kids marked again by blast
qed

subsection \<open>The recomputed bound\<close>

lemma union_PosBounds_value:
  "union_PosBounds R b0 rs = Inr b \<Longrightarrow>
   b = foldl aabb_union b0 (List.map_filter (map_option (\<lambda>r. PosBound (R r))) rs)"
  by (induction R b0 rs rule: union_PosBounds.induct) (simp_all add: List.map_filter_simps)

lemma drawables_PosBound_value:
  "drawables_PosBound R rs = Inr b \<Longrightarrow> drawables_bound R rs = Some b"
proof (induction R rs rule: drawables_PosBound.induct)
  case (3 R r rs)
  then show ?case using union_PosBounds_value [of R "PosBound (R r)" rs b]
    by (simp add: drawables_bound_def List.map_filter_simps)
qed simp_all

lemma recomputed_bound_cong:
  assumes "\<And>q. q \<in> set (preorder t) \<Longrightarrow>
             pos_aabb_dirty (nodes a q) = pos_aabb_dirty (nodes s q) \<and>
             pos_aabb_os (nodes a q) = pos_aabb_os (nodes s q) \<and>
             renderables (nodes a q) = renderables (nodes s q) \<and>
             attrib (nodes a q) = attrib (nodes s q)"
      and "\<And>r. PosBound (rends a r) = PosBound (rends s r)"
  shows "recomputed_bound a t = recomputed_bound s t"
  using assms
proof (induction t)
  case (Tr p ts)
  have p: "pos_aabb_dirty (nodes a p) = pos_aabb_dirty (nodes s p)"
    "pos_aabb_os (nodes a p) = pos_aabb_os (nodes s p)"
    "renderables (nodes a p) = renderables (nodes s p)"
    using Tr.prems(1) [of p] by simp_all
  have sub: "recomputed_bound a t = recomputed_bound s t" if "t \<in> set ts" for t
  proof (rule Tr.IH [OF that])
    fix q assume "q \<in> set (preorder t)"
    with that have "q \<in> set (preorder (Tr p ts))" by auto
    then show "pos_aabb_dirty (nodes a q) = pos_aabb_dirty (nodes s q) \<and>
             pos_aabb_os (nodes a q) = pos_aabb_os (nodes s q) \<and>
             renderables (nodes a q) = renderables (nodes s q) \<and>
             attrib (nodes a q) = attrib (nodes s q)" by (rule Tr.prems(1))
  next
    fix r show "PosBound (rends a r) = PosBound (rends s r)" by (rule Tr.prems(2))
  qed
  have roots: "attrib (nodes a (tree_root t)) = attrib (nodes s (tree_root t))" if "t \<in> set ts" for t
    using Tr.prems(1) [of "tree_root t"] that tree_root_in_preorder [of t] by auto
  have f: "filter (\<lambda>t. tracks_bound (attrib (nodes a (tree_root t)))) ts =
           filter (\<lambda>t. tracks_bound (attrib (nodes s (tree_root t)))) ts"
    by (rule filter_cong) (simp_all add: roots)
  have m: "map (recomputed_bound a) (filter (\<lambda>t. tracks_bound (attrib (nodes s (tree_root t)))) ts) =
           map (recomputed_bound s) (filter (\<lambda>t. tracks_bound (attrib (nodes s (tree_root t)))) ts)"
    by (rule map_cong) (simp_all add: sub)
  have d: "drawables_bound (rends a) rs = drawables_bound (rends s) rs" for rs
  proof -
    have "map_option (\<lambda>r. PosBound (rends a r)) = map_option (\<lambda>r. PosBound (rends s r))"
      using Tr.prems(2) by simp
    then show ?thesis by (simp add: drawables_bound_def)
  qed
  show ?case by (simp add: p f m d split: option.splits)
qed

lemma bound_frame_keeps_presence:
  assumes "bound_frame s a" and "bound_presence s"
  shows "bound_presence a"
  using assms bound_frame_fields(4,5) [OF assms(1)] bound_frame_presence [OF assms(1)]
  by (simp add: bound_presence_def)

lemma map_filter_tracked:
  "(\<And>x. x \<in> set xs \<Longrightarrow> (P x \<longrightarrow> f x = g x) \<and> (\<not> P x \<longrightarrow> f x = None)) \<Longrightarrow>
   List.map_filter f xs = List.map_filter id (map g (filter P xs))"
  by (induction xs) (auto simp: List.map_filter_simps split: option.splits)

lemma UpdatePosBound_recomputes:
  "shape (nodes s) t \<Longrightarrow> distinct (preorder t) \<Longrightarrow> bound_ready s t \<Longrightarrow> height t \<le> fuel \<Longrightarrow>
   bound_presence s \<Longrightarrow>
   \<exists>s'. UpdatePosBound fuel s (tree_root t) = Some (Inr s') \<and> bound_frame s s' \<and>
        (\<forall>q. q \<notin> set (preorder t) \<longrightarrow> nodes s' q = nodes s q) \<and>
        \<not> pos_aabb_dirty (nodes s' (tree_root t)) \<and>
        (tracks_bound (attrib (nodes s (tree_root t))) \<longrightarrow>
           pos_aabb_os (nodes s' (tree_root t)) = recomputed_bound s t)"
proof (induction t arbitrary: s fuel)
  case (Tr p ts)
  from Tr.prems(4) obtain k where fuel: "fuel = Suc k" by (cases fuel) auto
  have kids: "children (nodes s p) = map tree_root ts" using Tr.prems(1) by simp
  have pnot: "p \<notin> set (concat (map preorder ts))" and dts: "distinct (concat (map preorder ts))"
    using Tr.prems(2) by simp_all
  have pres: "\<And>q. pos_aabb_os (nodes s q) \<noteq> None \<longleftrightarrow> tracks_bound (attrib (nodes s q))"
    using Tr.prems(5) by (simp add: bound_presence_def)
  show ?case
  proof (cases "pos_aabb_dirty (nodes s p)")
    case False
    then show ?thesis by (simp add: fuel bound_frame_refl)
  next
    case dirty: True
    show ?thesis
    proof (cases "pos_aabb_os (nodes s p) \<noteq> None")
      case False
      define s' where "s' = upd_node s p (\<lambda>n. n\<lparr> pos_aabb_dirty := False \<rparr>)"
      have "UpdatePosBound fuel s (tree_root (Tr p ts)) = Some (Inr s')"
        using False dirty by (simp add: fuel s'_def)
      moreover have "bound_frame s s'" unfolding s'_def by (rule bound_frame_clear_dirty)
      moreover have "\<forall>q. q \<notin> set (preorder (Tr p ts)) \<longrightarrow> nodes s' q = nodes s q"
        by (simp add: s'_def upd_node_def)
      moreover have "\<not> pos_aabb_dirty (nodes s' (tree_root (Tr p ts)))"
        by (simp add: s'_def upd_node_def)
      moreover have "\<not> tracks_bound (attrib (nodes s (tree_root (Tr p ts))))"
        using False pres [of p] by simp
      ultimately show ?thesis by blast
    next
      case tracked: True
      from Tr.prems(3) dirty tracked have
        rs: "renderables (nodes s p) \<noteq> []" "list_all (\<lambda>r. r \<noteq> None) (renderables (nodes s p))"
        and rdy: "\<And>t. t \<in> set ts \<Longrightarrow> pos_aabb_os (nodes s (tree_root t)) = None \<or> bound_ready s t"
        by (simp_all add: list_all_iff)
      from drawables_PosBound_ok [OF rs] obtain b where
        b: "drawables_PosBound (rends s) (renderables (nodes s p)) = Inr b" by blast
      define s1 where "s1 = upd_node s p (\<lambda>n. n\<lparr> pos_aabb_os := Some b \<rparr>)"
      have f1: "bound_frame s s1" unfolding s1_def using tracked by (rule bound_frame_set_os)
      have o1: "\<And>q. q \<noteq> p \<Longrightarrow> nodes s1 q = nodes s q" by (simp add: s1_def upd_node_def)
      define I where "I pre a \<longleftrightarrow> bound_frame s1 a \<and>
          (\<forall>q. q \<noteq> p \<longrightarrow> q \<notin> (\<Union>t'\<in>set pre. set (preorder t')) \<longrightarrow> nodes a q = nodes s q) \<and>
          pos_aabb_os (nodes a p) =
            Some (foldl aabb_union b (List.map_filter (\<lambda>t'. pos_aabb_os (nodes a (tree_root t'))) pre)) \<and>
          (\<forall>t'\<in>set pre. tracks_bound (attrib (nodes s (tree_root t'))) \<longrightarrow>
             pos_aabb_os (nodes a (tree_root t')) = recomputed_bound s t')"
        for pre a
      have "\<exists>s2. for_each (\<lambda>t'. unite_child (UpdatePosBound k) p (tree_root t')) ts s1 = Some (Inr s2)
                 \<and> I ts s2"
      proof (rule for_each_prefix)
        show "I [] s1" using o1 by (simp add: I_def bound_frame_refl List.map_filter_simps s1_def upd_node_def)
      next
        fix pre x post a
        assume split: "ts = pre @ x # post" and Ia: "I pre a"
        from Ia have fa: "bound_frame s1 a"
          and ua: "\<And>q. q \<noteq> p \<Longrightarrow> q \<notin> (\<Union>t'\<in>set pre. set (preorder t')) \<Longrightarrow> nodes a q = nodes s q"
          and oa: "pos_aabb_os (nodes a p) =
            Some (foldl aabb_union b (List.map_filter (\<lambda>t'. pos_aabb_os (nodes a (tree_root t'))) pre))"
          and va: "\<And>t'. t' \<in> set pre \<Longrightarrow> tracks_bound (attrib (nodes s (tree_root t'))) \<Longrightarrow>
             pos_aabb_os (nodes a (tree_root t')) = recomputed_bound s t'"
          by (simp_all add: I_def)
        have fsa: "bound_frame s a" using f1 fa by (rule bound_frame_trans)
        have xin: "x \<in> set ts" using split by simp
        have dx: "distinct (preorder x)" using dts split by simp
        have disj: "\<And>q t'. q \<in> set (preorder x) \<Longrightarrow> t' \<in> set pre \<Longrightarrow> q \<notin> set (preorder t')"
          using dts split by auto
        have px: "p \<notin> set (preorder x)" using pnot xin by auto
        have ppre: "\<And>t'. t' \<in> set pre \<Longrightarrow> tree_root t' \<noteq> p"
          using pnot split tree_root_in_preorder by fastforce
        have same_x: "nodes a q = nodes s q" if "q \<in> set (preorder x)" for q
        proof (rule ua)
          show "q \<noteq> p" using that px by auto
          show "q \<notin> (\<Union>t'\<in>set pre. set (preorder t'))" using disj [OF that] by auto
        qed
        define c where "c = tree_root x"
        have cx: "c \<in> set (preorder x)" unfolding c_def by (rule tree_root_in_preorder)
        have cp: "c \<noteq> p" using cx px by auto
        have cpre: "\<And>t'. t' \<in> set pre \<Longrightarrow> tree_root t' \<notin> set (preorder x)"
          using disj tree_root_in_preorder by blast
        show "\<exists>b'. unite_child (UpdatePosBound k) p (tree_root x) a = Some (Inr b') \<and> I (pre @ [x]) b'"
        proof (cases "pos_aabb_os (nodes a c) = None")
          case True
          then have "unite_child (UpdatePosBound k) p (tree_root x) a = Some (Inr a)"
            by (simp add: unite_child_def c_def)
          moreover have "\<not> tracks_bound (attrib (nodes s (tree_root x)))"
            using True same_x [OF cx] pres [of c] by (simp add: c_def)
          then have "I (pre @ [x]) a"
            using fa ua oa va True
            by (simp add: I_def map_filter_append List.map_filter_simps c_def)
          ultimately show ?thesis by blast
        next
          case False
          then have tc: "pos_aabb_os (nodes s c) \<noteq> None" using same_x [OF cx] by simp
          with rdy [OF xin] have "bound_ready s x" by (auto simp: c_def)
          then have ra: "bound_ready a x" using bound_ready_local [of x a s] same_x by simp
          have "shape (nodes s) x" using Tr.prems(1) xin by (simp add: list_all_iff)
          then have sa: "shape (nodes a) x"
            using bound_frame_shape [OF f1] bound_frame_shape [OF fa] by simp
          have hx: "height x \<le> k"
            using Tr.prems(4) xin fuel mem_le_fold_max [of "height x" "map height ts" 0] by auto
          have pa: "bound_presence a" using fsa Tr.prems(5) by (rule bound_frame_keeps_presence)
          have tca: "tracks_bound (attrib (nodes a c))" using tc pres [of c] same_x [OF cx] by simp
          have rba: "recomputed_bound a x = recomputed_bound s x"
          proof (rule recomputed_bound_cong)
            fix q assume "q \<in> set (preorder x)"
            then show "pos_aabb_dirty (nodes a q) = pos_aabb_dirty (nodes s q) \<and>
               pos_aabb_os (nodes a q) = pos_aabb_os (nodes s q) \<and>
               renderables (nodes a q) = renderables (nodes s q) \<and>
               attrib (nodes a q) = attrib (nodes s q)" using same_x by simp
          next
            fix r show "PosBound (rends a r) = PosBound (rends s r)"
              using fsa by (simp add: bound_frame_def)
          qed
          from Tr.IH [OF xin sa dx ra hx pa] tca rba obtain a' where
            run: "UpdatePosBound k a c = Some (Inr a')" and fa': "bound_frame a a'"
            and foot: "\<And>q. q \<notin> set (preorder x) \<Longrightarrow> nodes a' q = nodes a q"
            and val: "pos_aabb_os (nodes a' c) = recomputed_bound s x"
            unfolding c_def by auto
          have pa': "nodes a' p = nodes a p" using foot px by simp
          obtain acc where acc: "pos_aabb_os (nodes a' p) = Some acc"
            "acc = foldl aabb_union b (List.map_filter (\<lambda>t'. pos_aabb_os (nodes a (tree_root t'))) pre)"
            using oa pa' by simp
          from False bound_frame_presence [OF fa', of c] obtain cb where
            cb: "pos_aabb_os (nodes a' c) = Some cb" by auto
          define b' where "b' = upd_node a' p (\<lambda>n. n\<lparr> pos_aabb_os := Some (aabb_union acc cb) \<rparr>)"
          have step: "unite_child (UpdatePosBound k) p (tree_root x) a = Some (Inr b')"
            using False run acc(1) cb by (simp add: unite_child_def c_def [symmetric] b'_def)
          have fb: "bound_frame a' b'"
            unfolding b'_def using acc(1) bound_frame_set_os [of a' p] by simp
          have nb: "\<And>q. q \<noteq> p \<Longrightarrow> nodes b' q = nodes a' q" by (simp add: b'_def upd_node_def)
          have i1: "bound_frame s1 b'" using fa fa' fb bound_frame_trans by blast
          have i2: "\<forall>q. q \<noteq> p \<longrightarrow> q \<notin> (\<Union>t'\<in>set (pre @ [x]). set (preorder t')) \<longrightarrow> nodes b' q = nodes s q"
            using nb foot ua by auto
          have keep: "pos_aabb_os (nodes b' (tree_root t')) = pos_aabb_os (nodes a (tree_root t'))"
            if t': "t' \<in> set pre" for t'
          proof -
            have "nodes b' (tree_root t') = nodes a' (tree_root t')" using nb ppre [OF t'] by simp
            also have "\<dots> = nodes a (tree_root t')" using foot cpre [OF t'] by simp
            finally show ?thesis by simp
          qed
          have old: "List.map_filter (\<lambda>t'. pos_aabb_os (nodes b' (tree_root t'))) pre =
                     List.map_filter (\<lambda>t'. pos_aabb_os (nodes a (tree_root t'))) pre"
            by (rule map_filter_cong_set) (rule keep)
          have new: "pos_aabb_os (nodes b' (tree_root x)) = Some cb"
            using nb [OF cp] cb by (simp add: c_def)
          have i3: "pos_aabb_os (nodes b' p) =
            Some (foldl aabb_union b (List.map_filter (\<lambda>t'. pos_aabb_os (nodes b' (tree_root t'))) (pre @ [x])))"
          proof -
            have ob: "pos_aabb_os (nodes b' p) = Some (aabb_union acc cb)"
              by (simp add: b'_def upd_node_def)
            have "List.map_filter (\<lambda>t'. pos_aabb_os (nodes b' (tree_root t'))) (pre @ [x]) =
                  List.map_filter (\<lambda>t'. pos_aabb_os (nodes a (tree_root t'))) pre @ [cb]"
              unfolding map_filter_append old by (simp add: List.map_filter_simps new)
            then show ?thesis using ob acc(2) by simp
          qed
          have i4: "\<forall>t'\<in>set (pre @ [x]). tracks_bound (attrib (nodes s (tree_root t'))) \<longrightarrow>
             pos_aabb_os (nodes b' (tree_root t')) = recomputed_bound s t'"
          proof (intro ballI impI)
            fix t' assume t': "t' \<in> set (pre @ [x])"
              and tr: "tracks_bound (attrib (nodes s (tree_root t')))"
            show "pos_aabb_os (nodes b' (tree_root t')) = recomputed_bound s t'"
            proof (cases "t' \<in> set pre")
              case True
              with keep va tr show ?thesis by simp
            next
              case False
              with t' have "t' = x" by simp
              with new cb val show ?thesis by simp
            qed
          qed
          have "I (pre @ [x]) b'" unfolding I_def using i1 i2 i3 i4 by blast
          with step show ?thesis by blast
        qed
      qed
      then obtain s2 where loop: "for_each (\<lambda>t'. unite_child (UpdatePosBound k) p (tree_root t')) ts s1 = Some (Inr s2)"
        and I2: "I ts s2" by blast
      define s' where "s' = upd_node s2 p (\<lambda>n. n\<lparr> pos_aabb_dirty := False \<rparr>)"
      have run: "UpdatePosBound fuel s (tree_root (Tr p ts)) = Some (Inr s')"
        using dirty tracked b loop
        by (simp add: fuel kids for_each_map s1_def [symmetric] s'_def)
      from I2 have f2: "bound_frame s1 s2"
        and u2: "\<And>q. q \<noteq> p \<Longrightarrow> q \<notin> (\<Union>t'\<in>set ts. set (preorder t')) \<Longrightarrow> nodes s2 q = nodes s q"
        and o2: "pos_aabb_os (nodes s2 p) =
            Some (foldl aabb_union b (List.map_filter (\<lambda>t'. pos_aabb_os (nodes s2 (tree_root t'))) ts))"
        and v2: "\<And>t'. t' \<in> set ts \<Longrightarrow> tracks_bound (attrib (nodes s (tree_root t'))) \<Longrightarrow>
             pos_aabb_os (nodes s2 (tree_root t')) = recomputed_bound s t'"
        by (simp_all add: I_def)
      have fs2: "bound_frame s s2" using f1 f2 by (rule bound_frame_trans)
      have fs: "bound_frame s s'"
        unfolding s'_def using fs2 bound_frame_clear_dirty bound_frame_trans by blast
      have foot: "\<forall>q. q \<notin> set (preorder (Tr p ts)) \<longrightarrow> nodes s' q = nodes s q"
        using u2 by (auto simp: s'_def upd_node_def)
      have clean: "\<not> pos_aabb_dirty (nodes s' (tree_root (Tr p ts)))"
        by (simp add: s'_def upd_node_def)
      have mf: "List.map_filter (\<lambda>t'. pos_aabb_os (nodes s2 (tree_root t'))) ts =
          List.map_filter id (map (recomputed_bound s)
            (filter (\<lambda>t'. tracks_bound (attrib (nodes s (tree_root t')))) ts))"
      proof (rule map_filter_tracked, intro conjI impI)
        fix x assume x: "x \<in> set ts" and "tracks_bound (attrib (nodes s (tree_root x)))"
        then show "pos_aabb_os (nodes s2 (tree_root x)) = recomputed_bound s x" by (rule v2)
      next
        fix x assume x: "x \<in> set ts" and "\<not> tracks_bound (attrib (nodes s (tree_root x)))"
        then have "pos_aabb_os (nodes s (tree_root x)) = None" using pres [of "tree_root x"] by simp
        then show "pos_aabb_os (nodes s2 (tree_root x)) = None"
          using bound_frame_presence [OF fs2, of "tree_root x"] by simp
      qed
      have "pos_aabb_os (nodes s' p) = pos_aabb_os (nodes s2 p)"
        by (simp add: s'_def upd_node_def)
      then have os: "pos_aabb_os (nodes s' (tree_root (Tr p ts))) = recomputed_bound s (Tr p ts)"
        using o2 dirty drawables_PosBound_value [OF b] by (simp add: mf)
      show ?thesis using run fs foot clean os by blast
    qed
  qed
qed

text \<open>
  C3, as amended. In a store in which every node has its bounds exactly when its
  attribute mask tracks a bound, as the constructor leaves it, let the node \<open>p\<close> track a
  bound, be dirty, and root a tree without sharing in which every node the
  recomputation visits has a drawable and no null drawable. Then \<^verbatim>\<open>UpdatePosBound\<close>
  returns, and so does \<^verbatim>\<open>UpdateAbsModelMatrix\<close>; afterwards the local bound of \<open>p\<close> is the
  union of the bounds of its own drawables and of the local bounds of its direct
  children that are not overlays and are cullable or moveable, each child's bound
  recomputed first in the same way if that child is dirty (\<^verbatim>\<open>recomputed_bound\<close>, a
  function of the store before the call). The world bound is \<^verbatim>\<open>transform_aabb\<close> of that
  union by the matrix the call leaves in \<^verbatim>\<open>abs_model_\<close>. In the scene with the family the
  local and the world bound of the root become the cube from -1 to 3: the grandchild's
  cube reaches the root through its parent, the overlay's does not. For the cullable
  root with the two cubes and the identity both bounds become the cube from -1 to 2.
\<close>

theorem UpdateAbsModelMatrix_unites_tracked_children:
  assumes sh: "shape (nodes s) t" and di: "distinct (preorder t)" and rd: "bound_ready s t"
      and he: "height t \<le> fuel" and rt: "tree_root t = p"
      and pres: "bound_presence s" and tr: "tracks_bound (attrib (nodes s p))"
      and dirty: "pos_aabb_dirty (nodes s p)"
  shows "\<exists>s1 s2 b.
      recomputed_bound s t = Some b \<and>
      UpdatePosBound fuel s p = Some (Inr s1) \<and> pos_aabb_os (nodes s1 p) = Some b \<and>
      UpdateAbsModelMatrix M fuel s p = Some (Inr s2) \<and> pos_aabb_os (nodes s2 p) = Some b \<and>
      abs_model (nodes s2 p) =
        (case parent (nodes s p) of
           Some q \<Rightarrow> mat_mul M (model (nodes s q)) (model (nodes s p))
         | None \<Rightarrow> model (nodes s p)) \<and>
      pos_aabb_ws (nodes s2 p) = Some (transform_aabb M b (abs_model (nodes s2 p)))"
proof -
  from pres tr have os: "pos_aabb_os (nodes s p) \<noteq> None" and ws: "pos_aabb_ws (nodes s p) \<noteq> None"
    by (simp_all add: bound_presence_def)
  obtain ts where t: "t = Tr p ts" using rt by (cases t) auto
  from rd os dirty have rs: "renderables (nodes s p) \<noteq> []"
    "list_all (\<lambda>r. r \<noteq> None) (renderables (nodes s p))"
    by (simp_all add: t)
  from drawables_PosBound_ok [OF rs] obtain b0 where
    "drawables_PosBound (rends s) (renderables (nodes s p)) = Inr b0" by blast
  then have "drawables_bound (rends s) (renderables (nodes s p)) = Some b0"
    by (rule drawables_PosBound_value)
  with dirty obtain b where b: "recomputed_bound s t = Some b" by (simp add: t)
  from UpdatePosBound_recomputes [OF sh di rd he pres] tr obtain s1 where
    r1: "UpdatePosBound fuel s p = Some (Inr s1)"
    and o1: "pos_aabb_os (nodes s1 p) = recomputed_bound s t"
    unfolding rt by blast
  define am where "am = (case parent (nodes s p) of
                    Some q \<Rightarrow> mat_mul M (model (nodes s q)) (model (nodes s p))
                  | None \<Rightarrow> model (nodes s p))"
  define a where "a = upd_node s p (\<lambda>n. n\<lparr> abs_model :=
                 (case parent n of
                    Some q \<Rightarrow> mat_mul M (ModelMatrix s q) (model n)
                  | None \<Rightarrow> model n) \<rparr>)"
  have af: "children (nodes a q) = children (nodes s q)"
    "pos_aabb_dirty (nodes a q) = pos_aabb_dirty (nodes s q)"
    "pos_aabb_os (nodes a q) = pos_aabb_os (nodes s q)"
    "pos_aabb_ws (nodes a q) = pos_aabb_ws (nodes s q)"
    "renderables (nodes a q) = renderables (nodes s q)"
    "attrib (nodes a q) = attrib (nodes s q)" for q
    by (simp_all add: a_def upd_node_def)
  have aam: "abs_model (nodes a p) = am"
    by (simp add: a_def upd_node_def am_def ModelMatrix_def split: option.splits)
  have ar: "rends a = rends s" by (simp add: a_def upd_node_def)
  have sha: "shape (nodes a) t" using sh shape_children_cong [of "nodes a" "nodes s" t] af(1) by simp
  have rda: "bound_ready a t" using rd bound_ready_cong [of a s t] af by simp
  have pra: "bound_presence a" using pres by (simp add: bound_presence_def af)
  have rba: "recomputed_bound a t = recomputed_bound s t"
    by (rule recomputed_bound_cong) (simp_all add: af ar)
  from UpdatePosBound_recomputes [OF sha di rda he pra] tr obtain a1 where
    ra: "UpdatePosBound fuel a p = Some (Inr a1)"
    and fa: "bound_frame a a1"
    and oa: "pos_aabb_os (nodes a1 p) = Some b"
    unfolding rt af rba b by blast
  define a2 where "a2 = upd_node a1 p (\<lambda>n. n\<lparr> pos_aabb_ws := Some (transform_aabb M b (abs_model n)) \<rparr>)"
  have rs2: "renderables (nodes a2 p) = renderables (nodes s p)"
    using bound_frame_fields(2) [OF fa, of p] by (simp add: a2_def upd_node_def af)
  from set_renderable_model_loop [of "renderables (nodes a2 p)" "abs_model (nodes a2 p)" a2] rs(2)
  obtain s2 where loop: "for_each (set_renderable_model (abs_model (nodes a2 p)))
                          (renderables (nodes a2 p)) a2 = Some (Inr s2)"
    and n2: "nodes s2 = nodes a2"
    unfolding rs2 by blast
  have run: "UpdateAbsModelMatrix M fuel s p = Some (Inr s2)"
    using rs(1) ws ra oa loop
    by (simp add: UpdateAbsModelMatrix_def a_def [symmetric] Let_def af a2_def [symmetric])
  have o2: "pos_aabb_os (nodes s2 p) = Some b"
    using oa by (simp add: n2 a2_def upd_node_def)
  have m2: "abs_model (nodes s2 p) = am"
    using bound_frame_fields(8) [OF fa, of p] aam by (simp add: n2 a2_def upd_node_def)
  have w2: "pos_aabb_ws (nodes s2 p) = Some (transform_aabb M b (abs_model (nodes s2 p)))"
    by (simp add: n2 a2_def upd_node_def)
  show ?thesis using b r1 o1 run o2 m2 w2 unfolding am_def by auto
qed

lemma not_tracks_zero: "\<not> tracks_bound 0"
  by (simp add: tracks_bound_def)

lemma not_tracks_Overlay: "\<not> tracks_bound (SOA_Cullable OR SOA_Overlay)"
  by (simp add: tracks_bound_def SOA_Cullable_def SOA_Overlay_def SOA_Moveable_def)

lemma family_nodes:
  "nodes family_scene 0 = (SceneNode_init exact_math SOA_Cullable)
      \<lparr> children := [1, 3], renderables := [Some 0], renderables_hw_res_ready := [False] \<rparr>"
  "nodes family_scene (Suc 0) = (SceneNode_init exact_math SOA_Cullable)
      \<lparr> parent := Some 0, children := [2], renderables := [Some 1], renderables_hw_res_ready := [False] \<rparr>"
  "nodes family_scene 2 = (SceneNode_init exact_math SOA_Moveable)
      \<lparr> parent := Some 1, renderables := [Some 2], renderables_hw_res_ready := [False] \<rparr>"
  "nodes family_scene 3 = (SceneNode_init exact_math (SOA_Cullable OR SOA_Overlay))
      \<lparr> parent := Some 0, renderables := [Some 3], renderables_hw_res_ready := [False] \<rparr>"
  "q \<noteq> 0 \<Longrightarrow> q \<noteq> Suc 0 \<Longrightarrow> q \<noteq> 2 \<Longrightarrow> q \<noteq> 3 \<Longrightarrow> nodes family_scene q = SceneNode_init exact_math 0"
  by (simp_all add: family_scene_def)

lemma family_rends:
  "rends family_scene 0 = drawable (cube (- 1) 1) False []"
  "rends family_scene (Suc 0) = drawable (cube 0 2) False []"
  "rends family_scene 2 = drawable (cube 2 3) False []"
  "rends family_scene 3 = drawable (cube 5 6) False []"
  by (simp_all add: family_scene_def)

lemma family_presence: "bound_presence family_scene"
proof -
  have "(pos_aabb_os (nodes family_scene q) \<noteq> None \<longleftrightarrow> tracks_bound (attrib (nodes family_scene q))) \<and>
        (pos_aabb_ws (nodes family_scene q) \<noteq> None \<longleftrightarrow> tracks_bound (attrib (nodes family_scene q)))" for q
  proof -
    consider "q = 0" | "q = Suc 0" | "q = 2" | "q = 3" | "q \<noteq> 0" "q \<noteq> Suc 0" "q \<noteq> 2" "q \<noteq> 3"
      by blast
    then show ?thesis
      by cases (simp_all add: family_nodes SceneNode_init_def)
  qed
  then show ?thesis by (simp add: bound_presence_def)
qed

lemma family_tree_facts:
  "shape (nodes family_scene) family_tree"
  "distinct (preorder family_tree)"
  "bound_ready family_scene family_tree"
  "height family_tree \<le> 3"
  "tree_root family_tree = 0"
  "tracks_bound (attrib (nodes family_scene 0))"
  "pos_aabb_dirty (nodes family_scene 0)"
  "parent (nodes family_scene 0) = None"
  "model (nodes family_scene 0) = mat4_identity"
  by (simp_all add: family_tree_def family_nodes SceneNode_init_def tracks_Cullable tracks_Moveable
      not_tracks_Overlay exact_math_def)

lemma union_family:
  "aabb_union (cube 0 2) (cube 2 3) = cube 0 3"
  "aabb_union (cube (- 1) 1) (cube 0 3) = cube (- 1) 3"
  by (simp_all add: aabb_union_def cube_def minimize_def maximize_def)

lemma family_bound: "recomputed_bound family_scene family_tree = Some (cube (- 1) 3)"
  by (simp add: family_tree_def family_nodes family_rends SceneNode_init_def tracks_Cullable tracks_Moveable
      not_tracks_Overlay drawables_bound_def drawable_def List.map_filter_simps union_family)

lemma two_cubes_presence: "bound_presence two_cubes_scene"
proof -
  have "(pos_aabb_os (nodes two_cubes_scene q) \<noteq> None \<longleftrightarrow> tracks_bound (attrib (nodes two_cubes_scene q))) \<and>
        (pos_aabb_ws (nodes two_cubes_scene q) \<noteq> None \<longleftrightarrow> tracks_bound (attrib (nodes two_cubes_scene q)))" for q
    by (cases "q = 0") (simp_all add: two_cubes_nodes two_cubes_nodes_other SceneNode_init_def)
  then show ?thesis by (simp add: bound_presence_def)
qed

lemma two_cubes_bound: "recomputed_bound two_cubes_scene (Tr 0 []) = Some (cube (- 1) 2)"
  by (simp add: two_cubes_nodes two_cubes_rends SceneNode_init_def drawables_bound_def drawable_def
      List.map_filter_simps union_cubes)

theorem UpdateAbsModelMatrix_unites_tracked_children_witness:
  "shape (nodes family_scene) family_tree \<and> distinct (preorder family_tree) \<and>
   bound_ready family_scene family_tree \<and> height family_tree \<le> 3 \<and>
   tracks_bound (attrib (nodes family_scene 0)) \<and> pos_aabb_dirty (nodes family_scene 0) \<and>
   recomputed_bound family_scene family_tree = Some (cube (- 1) 3) \<and>
   (\<exists>s2. UpdateAbsModelMatrix exact_math 3 family_scene 0 = Some (Inr s2) \<and>
      pos_aabb_os (nodes s2 0) = Some (cube (- 1) 3) \<and>
      pos_aabb_ws (nodes s2 0) = Some (cube (- 1) 3)) \<and>
   renderables (nodes two_cubes_scene 0) = [Some 0, Some 1] \<and>
   map (\<lambda>r. PosBound (rends two_cubes_scene r)) [0, 1] = [cube (- 1) 1, cube 0 2] \<and>
   model (nodes two_cubes_scene 0) = mat4_identity \<and> parent (nodes two_cubes_scene 0) = None \<and>
   (\<exists>s2. UpdateAbsModelMatrix exact_math 1 two_cubes_scene 0 = Some (Inr s2) \<and>
      pos_aabb_os (nodes s2 0) = Some (cube (- 1) 2) \<and>
      pos_aabb_ws (nodes s2 0) = Some (cube (- 1) 2))"
proof -
  note ff = family_tree_facts
  from UpdateAbsModelMatrix_unites_tracked_children
    [OF ff(1) ff(2) ff(3) ff(4) ff(5) family_presence ff(6) ff(7), of exact_math]
  obtain s1 s2 b where rb: "recomputed_bound family_scene family_tree = Some b"
    and run: "UpdateAbsModelMatrix exact_math 3 family_scene 0 = Some (Inr s2)"
    and ob: "pos_aabb_os (nodes s2 0) = Some b"
    and mb: "abs_model (nodes s2 0) =
        (case parent (nodes family_scene 0) of
           Some q \<Rightarrow> mat_mul exact_math (model (nodes family_scene q)) (model (nodes family_scene 0))
         | None \<Rightarrow> model (nodes family_scene 0))"
    and wb: "pos_aabb_ws (nodes s2 0) = Some (transform_aabb exact_math b (abs_model (nodes s2 0)))"
    by blast
  have bv: "b = cube (- 1) 3" using rb unfolding family_bound by simp
  have o2: "pos_aabb_os (nodes s2 0) = Some (cube (- 1) 3)" using ob bv by simp
  have m2: "abs_model (nodes s2 0) = mat4_identity" using mb by (simp add: ff(8) ff(9))
  have w2: "pos_aabb_ws (nodes s2 0) = Some (transform_aabb exact_math (cube (- 1) 3) (abs_model (nodes s2 0)))"
    using wb bv by simp
  have wv: "pos_aabb_ws (nodes s2 0) = Some (cube (- 1) 3)"
    using w2 by (simp add: m2 exact_math_def transform_identity)
  note tf = two_cubes_tree
  have tr: "tracks_bound (attrib (nodes two_cubes_scene 0))"
    by (simp add: two_cubes_nodes SceneNode_init_def tracks_Cullable)
  have facts: "renderables (nodes two_cubes_scene 0) = [Some 0, Some 1]"
    "map (\<lambda>r. PosBound (rends two_cubes_scene r)) [0, 1] = [cube (- 1) 1, cube 0 2]"
    "model (nodes two_cubes_scene 0) = mat4_identity" "parent (nodes two_cubes_scene 0) = None"
    by (simp_all add: two_cubes_nodes two_cubes_rends SceneNode_init_def drawable_def exact_math_def)
  from UpdateAbsModelMatrix_unites_tracked_children
    [OF tf(1) tf(2) tf(3) tf(4) tf(5) two_cubes_presence tr tf(8), of exact_math]
  obtain c1 c2 d where rd: "recomputed_bound two_cubes_scene (Tr 0 []) = Some d"
    and crun: "UpdateAbsModelMatrix exact_math 1 two_cubes_scene 0 = Some (Inr c2)"
    and cd: "pos_aabb_os (nodes c2 0) = Some d"
    and md: "abs_model (nodes c2 0) =
        (case parent (nodes two_cubes_scene 0) of
           Some q \<Rightarrow> mat_mul exact_math (model (nodes two_cubes_scene q)) (model (nodes two_cubes_scene 0))
         | None \<Rightarrow> model (nodes two_cubes_scene 0))"
    and wd: "pos_aabb_ws (nodes c2 0) = Some (transform_aabb exact_math d (abs_model (nodes c2 0)))"
    by blast
  have dv: "d = cube (- 1) 2" using rd unfolding two_cubes_bound by simp
  have co: "pos_aabb_os (nodes c2 0) = Some (cube (- 1) 2)" using cd dv by simp
  have cm: "abs_model (nodes c2 0) = mat4_identity" using md by (simp add: facts)
  have cw: "pos_aabb_ws (nodes c2 0) = Some (transform_aabb exact_math (cube (- 1) 2) (abs_model (nodes c2 0)))"
    using wd dv by simp
  have cwv: "pos_aabb_ws (nodes c2 0) = Some (cube (- 1) 2)"
    using cw by (simp add: cm exact_math_def transform_identity)
  show ?thesis
    using ff(1) ff(2) ff(3) ff(4) ff(6) ff(7) family_bound run o2 wv facts crun co cwv by blast
qed

subsection \<open>A child that has a bound and no drawable\<close>

lemma bare_child_nodes:
  "nodes bare_child_scene 0 = (SceneNode_init exact_math SOA_Cullable)
      \<lparr> children := [1], renderables := [Some 0], renderables_hw_res_ready := [False] \<rparr>"
  "nodes bare_child_scene (Suc 0) = (SceneNode_init exact_math SOA_Cullable) \<lparr> parent := Some 0 \<rparr>"
  by (simp_all add: bare_child_scene_def empty_scene_def alloc_node_def AddRenderable_def
      AddChild_def Parent_set_def upd_node_def SceneNode_init_def Let_def)

lemma bare_child_rends: "rends bare_child_scene 0 = drawable (cube (- 1) 1) True []"
  by (simp add: bare_child_scene_def empty_scene_def alloc_node_def AddRenderable_def
      AddChild_def Parent_set_def upd_node_def Let_def)

lemma bare_child_UpdatePosBound:
  "UpdatePosBound (Suc (Suc k)) bare_child_scene 0 = Some (Inl IndexOutOfRange)"
  by (simp add: bare_child_nodes bare_child_rends unite_child_def SceneNode_init_def tracks_Cullable
      upd_node_def drawable_def)

lemma bare_child_UpdatePosBound_short:
  "UpdatePosBound 0 bare_child_scene 0 = None" "UpdatePosBound (Suc 0) bare_child_scene 0 = None"
  by (simp_all add: bare_child_nodes bare_child_rends unite_child_def SceneNode_init_def tracks_Cullable
      upd_node_def drawable_def)

text \<open>
  C5. The claim is made for every node, and on the code it fails where the
  recomputation reaches a child that has a bound and no drawable:
  \<^verbatim>\<open>UpdatePosBound\<close> reads \<^verbatim>\<open>renderables_[0]\<close> of every node it recurses into, without the
  test for an empty list that \<^verbatim>\<open>UpdateAbsModelMatrix\<close> makes before its own call of
  \<^verbatim>\<open>UpdatePosBound\<close>. In the scene below \<^verbatim>\<open>AddChild\<close> has set the dirty flag of the root.
  The next recomputation, by \<^verbatim>\<open>UpdatePosBound\<close> or through \<^verbatim>\<open>UpdateAbsModelMatrix\<close>, reads
  past the end of the child's empty list of drawables. No recursion bound makes it
  return a store, so no flag is cleared and no bound is recomputed.
\<close>

theorem UpdatePosBound_faults_on_child_without_drawables:
  "pos_aabb_dirty (nodes bare_child_scene 0) \<and> renderables (nodes bare_child_scene 0) = [Some 0] \<and>
   children (nodes bare_child_scene 0) = [1] \<and>
   renderables (nodes bare_child_scene 1) = [] \<and>
   pos_aabb_os (nodes bare_child_scene 1) = Some (cube 0 0) \<and>
   UpdatePosBound 1 bare_child_scene 1 = Some (Inl IndexOutOfRange) \<and>
   UpdatePosBound 2 bare_child_scene 0 = Some (Inl IndexOutOfRange) \<and>
   UpdateAbsModelMatrix exact_math 2 bare_child_scene 0 = Some (Inl IndexOutOfRange) \<and>
   (\<forall>fuel. UpdatePosBound fuel bare_child_scene 0 = None \<or>
           UpdatePosBound fuel bare_child_scene 0 = Some (Inl IndexOutOfRange))"
proof -
  have facts: "pos_aabb_dirty (nodes bare_child_scene 0)" "renderables (nodes bare_child_scene 0) = [Some 0]"
    "children (nodes bare_child_scene 0) = [1]" "renderables (nodes bare_child_scene 1) = []"
    "pos_aabb_os (nodes bare_child_scene 1) = Some (cube 0 0)"
    by (simp_all add: bare_child_nodes SceneNode_init_def tracks_Cullable exact_math_def)
  have c: "UpdatePosBound 1 bare_child_scene 1 = Some (Inl IndexOutOfRange)"
    by (simp add: bare_child_nodes SceneNode_init_def tracks_Cullable)
  have r: "UpdatePosBound 2 bare_child_scene 0 = Some (Inl IndexOutOfRange)"
    using bare_child_UpdatePosBound [of 0] by (simp add: numeral_2_eq_2)
  have a: "UpdateAbsModelMatrix exact_math 2 bare_child_scene 0 = Some (Inl IndexOutOfRange)"
    by (simp add: UpdateAbsModelMatrix_def numeral_2_eq_2 bare_child_nodes bare_child_rends unite_child_def
        SceneNode_init_def tracks_Cullable upd_node_def drawable_def Let_def)
  have all: "UpdatePosBound fuel bare_child_scene 0 = None \<or>
           UpdatePosBound fuel bare_child_scene 0 = Some (Inl IndexOutOfRange)" for fuel
  proof (cases fuel)
    case 0
    then show ?thesis by (simp add: bare_child_UpdatePosBound_short)
  next
    case (Suc k)
    then show ?thesis
      by (cases k) (simp_all only: bare_child_UpdatePosBound bare_child_UpdatePosBound_short simp_thms)
  qed
  show ?thesis using facts c r a all by blast
qed

lemma bare_child_MainThreadUpdate:
  "MainThreadUpdate exact_math no_callbacks (Suc (Suc k)) bare_child_scene 0 0 0 = Some (Inl IndexOutOfRange)"
  by (simp add: MainThreadUpdate_def bare_child_nodes bare_child_rends drawable_def
       upd_node_def attach_renderable_def SceneNode_init_def Let_def tracks_Cullable
       UpdateAbsModelMatrix_def unite_child_def)

lemma bare_child_MainThreadUpdate_short:
  "MainThreadUpdate exact_math no_callbacks 0 bare_child_scene 0 0 0 = None"
  "MainThreadUpdate exact_math no_callbacks (Suc 0) bare_child_scene 0 0 0 = None"
  by (simp_all add: MainThreadUpdate_def bare_child_nodes bare_child_rends drawable_def
       upd_node_def attach_renderable_def SceneNode_init_def Let_def tracks_Cullable
       UpdateAbsModelMatrix_def unite_child_def)

text \<open>
  C7. The claim is made for every node, and on the code it fails for the same reason
  as C5. The drawable of the root below is not marked ready and reports ready, so
  \<^verbatim>\<open>MainThreadUpdate\<close> should return true. It marks the drawable, expands the sub-nodes
  and calls \<^verbatim>\<open>UpdateAbsModelMatrix\<close>, whose recomputation of the bound reads
  \<^verbatim>\<open>renderables_[0]\<close> of the child that has no drawable: the call returns neither true
  nor false, with no recursion bound whatsoever.
\<close>

theorem MainThreadUpdate_faults_on_child_without_drawables:
  "renderables (nodes bare_child_scene 0) = [Some 0] \<and>
   renderables_hw_res_ready (nodes bare_child_scene 0) = [False] \<and>
   HWResourceReady (rends bare_child_scene 0) \<and>
   children (nodes bare_child_scene 0) = [1] \<and> renderables (nodes bare_child_scene 1) = [] \<and>
   MainThreadUpdate exact_math no_callbacks 2 bare_child_scene 0 0 0 = Some (Inl IndexOutOfRange) \<and>
   (\<forall>fuel. MainThreadUpdate exact_math no_callbacks fuel bare_child_scene 0 0 0 = None \<or>
           MainThreadUpdate exact_math no_callbacks fuel bare_child_scene 0 0 0 = Some (Inl IndexOutOfRange))"
proof -
  have facts: "renderables (nodes bare_child_scene 0) = [Some 0]"
    "renderables_hw_res_ready (nodes bare_child_scene 0) = [False]"
    "HWResourceReady (rends bare_child_scene 0)"
    "children (nodes bare_child_scene 0) = [1]" "renderables (nodes bare_child_scene 1) = []"
    by (simp_all add: bare_child_nodes bare_child_rends SceneNode_init_def drawable_def)
  have r: "MainThreadUpdate exact_math no_callbacks 2 bare_child_scene 0 0 0 = Some (Inl IndexOutOfRange)"
    using bare_child_MainThreadUpdate [of 0] by (simp add: numeral_2_eq_2)
  have all: "MainThreadUpdate exact_math no_callbacks fuel bare_child_scene 0 0 0 = None \<or>
           MainThreadUpdate exact_math no_callbacks fuel bare_child_scene 0 0 0 = Some (Inl IndexOutOfRange)"
    for fuel
  proof (cases fuel)
    case 0
    then show ?thesis by (simp add: bare_child_MainThreadUpdate_short)
  next
    case (Suc k)
    then show ?thesis
      by (cases k) (simp_all only: bare_child_MainThreadUpdate bare_child_MainThreadUpdate_short simp_thms)
  qed
  show ?thesis using facts r all by blast
qed

end
